theory Spec2Isabelle
  imports Main "HOL-Library.Extended_Nat" "HOL-Library.Multiset"
begin

section \<open>Python values: errors, list indexing, slices\<close>

text \<open>
  The compiler is Python. Integers are unbounded (\<open>int\<close>), lists are HOL lists and every
  exception the modelled code can raise is a value of \<open>error\<close>; a function that can raise
  returns \<open>error + 'a\<close> with \<open>Inl\<close> for the exception. A function that contains a
  \<^verbatim>\<open>while\<close> loop without a syntactic bound returns an \<open>option\<close> around that, \<open>None\<close>
  standing for a run that never returns.
\<close>

datatype error = IndexError | ValueError | KeyError | TypeError | UnboundLocalError | RuntimeError

definition py_index :: "'a list \<Rightarrow> int \<Rightarrow> nat option" where
  \<comment> \<open>the position a Python subscript denotes: negative subscripts count from the end\<close>
  "py_index xs i =
     (let n = int (length xs); j = (if i < 0 then n + i else i)
      in if 0 \<le> j \<and> j < n then Some (nat j) else None)"

definition py_get :: "'a list \<Rightarrow> int \<Rightarrow> error + 'a" where
  \<comment> \<open>\<^verbatim>\<open>xs[i]\<close>\<close>
  "py_get xs i = (case py_index xs i of None \<Rightarrow> Inl IndexError | Some j \<Rightarrow> Inr (xs ! j))"

definition py_set :: "'a list \<Rightarrow> int \<Rightarrow> 'a \<Rightarrow> error + 'a list" where
  \<comment> \<open>\<^verbatim>\<open>xs[i] = v\<close>\<close>
  "py_set xs i v = (case py_index xs i of None \<Rightarrow> Inl IndexError | Some j \<Rightarrow> Inr (xs[j := v]))"

definition py_get2 :: "'a list list \<Rightarrow> int \<Rightarrow> int \<Rightarrow> error + 'a" where
  \<comment> \<open>\<^verbatim>\<open>m[i][j]\<close>\<close>
  "py_get2 m i j = (case py_get m i of Inl e \<Rightarrow> Inl e | Inr row \<Rightarrow> py_get row j)"

definition py_set2 :: "'a list list \<Rightarrow> int \<Rightarrow> int \<Rightarrow> 'a \<Rightarrow> error + 'a list list" where
  \<comment> \<open>\<^verbatim>\<open>m[i][j] = v\<close>\<close>
  "py_set2 m i j v =
     (case py_get m i of Inl e \<Rightarrow> Inl e
      | Inr row \<Rightarrow> (case py_set row j v of Inl e \<Rightarrow> Inl e | Inr row' \<Rightarrow> py_set m i row'))"

definition py_clamp :: "nat \<Rightarrow> int \<Rightarrow> nat" where
  \<comment> \<open>how a slice bound is normalised against a list of length \<open>n\<close>\<close>
  "py_clamp n i = (if i < 0 then nat (max (int n + i) 0) else min (nat i) n)"

definition py_slice :: "'a list \<Rightarrow> int \<Rightarrow> int \<Rightarrow> 'a list" where
  \<comment> \<open>\<^verbatim>\<open>xs[b:e]\<close>; an omitted bound is \<open>0\<close> on the left and \<open>len(xs)\<close> on the right\<close>
  "py_slice xs b e =
     (let b' = py_clamp (length xs) b; e' = py_clamp (length xs) e
      in take (e' - b') (drop b' xs))"

definition ebind :: "error + 'a \<Rightarrow> ('a \<Rightarrow> error + 'b) \<Rightarrow> error + 'b" where
  "ebind m f = (case m of Inl e \<Rightarrow> Inl e | Inr x \<Rightarrow> f x)"

definition obind :: "(error + 'a) option \<Rightarrow> ('a \<Rightarrow> (error + 'b) option) \<Rightarrow> (error + 'b) option" where
  "obind m f = (case m of None \<Rightarrow> None | Some (Inl e) \<Rightarrow> Some (Inl e) | Some (Inr x) \<Rightarrow> f x)"

section \<open>The topology: \<^verbatim>\<open>networkx.Graph\<close> and \<^verbatim>\<open>UnweightedUndirectedGraph\<close>\<close>

text \<open>
  The device graph arrives as a \<^verbatim>\<open>networkx.Graph\<close>. Of that library object the compiler
  uses the node list (in the library's iteration order), the edge list (each undirected
  edge once) and the neighbours of a node.
\<close>

record nx_graph =
  nodes :: "int list"
  edges :: "(int \<times> int) list"

definition number_of_nodes :: "nx_graph \<Rightarrow> nat" where
  "number_of_nodes G = length (nodes G)"

definition neighbors :: "nx_graph \<Rightarrow> int \<Rightarrow> int list" where
  "neighbors G v =
     remdups (concat (map (\<lambda>(a, b). (if a = v then [b] else []) @ (if b = v then [a] else []))
                          (edges G)))"

text \<open>
  \<^verbatim>\<open>UnweightedUndirectedGraph\<close>: the adjacency matrix, and the two tables of Floyd-Warshall,
  which are \<^verbatim>\<open>None\<close> until \<^verbatim>\<open>floyd_warshall\<close> has run. A distance is a natural number or
  \<^verbatim>\<open>float('inf')\<close>, that is an \<open>enat\<close>.
\<close>

record graph =
  num_nodes :: nat
  adj_matrix :: "int list list"
  dist :: "enat list list option"
  next_node :: "int list list option"

definition UnweightedUndirectedGraph :: "nat \<Rightarrow> graph" where
  "UnweightedUndirectedGraph n =
     \<lparr>num_nodes = n, adj_matrix = replicate n (replicate n 0), dist = None, next_node = None\<rparr>"

definition add_edge :: "graph \<Rightarrow> int \<Rightarrow> int \<Rightarrow> error + graph" where
  "add_edge g u v =
     ebind (py_set2 (adj_matrix g) u v 1) (\<lambda>m1.
     ebind (py_set2 m1 v u 1) (\<lambda>m2.
     Inr (g\<lparr>adj_matrix := m2\<rparr>)))"

fun add_edges :: "graph \<Rightarrow> (int \<times> int) list \<Rightarrow> error + graph" where
  "add_edges g [] = Inr g"
| "add_edges g ((s, d) # es) = ebind (add_edge g s d) (\<lambda>g'. add_edges g' es)"

definition from_nx :: "graph \<Rightarrow> nx_graph \<Rightarrow> error + graph" where
  "from_nx g G = add_edges g (edges G)"

text \<open>
  \<^verbatim>\<open>floyd_warshall\<close> reads and writes the three \<open>n \<times> n\<close> tables at indices drawn from
  \<^verbatim>\<open>range(n)\<close> only, so no subscript can fail; the tables are threaded through the three
  nested loops as a pair.
\<close>

definition fw_init_entry :: "int list list \<Rightarrow> nat \<Rightarrow> nat \<Rightarrow> enat \<times> int" where
  "fw_init_entry adj i j =
     (if i = j then (0, -1)
      else if adj ! i ! j = 1 then (1, int j)
      else (\<infinity>, -1))"

definition fw_init :: "nat \<Rightarrow> int list list \<Rightarrow> enat list list \<times> int list list" where
  "fw_init n adj =
     (map (\<lambda>i. map (\<lambda>j. fst (fw_init_entry adj i j)) [0..<n]) [0..<n],
      map (\<lambda>i. map (\<lambda>j. snd (fw_init_entry adj i j)) [0..<n]) [0..<n])"

definition fw_relax :: "nat \<Rightarrow> nat \<Rightarrow> nat \<Rightarrow> enat list list \<times> int list list
                         \<Rightarrow> enat list list \<times> int list list" where
  "fw_relax k i j s =
     (case s of (d, nx) \<Rightarrow>
        if d ! i ! j > d ! i ! k + d ! k ! j
        then (d[i := (d ! i)[j := d ! i ! k + d ! k ! j]], nx[i := (nx ! i)[j := nx ! i ! k]])
        else (d, nx))"

definition fw_loops :: "nat \<Rightarrow> enat list list \<times> int list list \<Rightarrow> enat list list \<times> int list list" where
  "fw_loops n s = fold (\<lambda>k. fold (\<lambda>i. fold (\<lambda>j. fw_relax k i j) [0..<n]) [0..<n]) [0..<n] s"

definition floyd_warshall :: "graph \<Rightarrow> graph" where
  "floyd_warshall g =
     (case fw_loops (num_nodes g) (fw_init (num_nodes g) (adj_matrix g)) of
        (d, nx) \<Rightarrow> g\<lparr>dist := Some d, next_node := Some nx\<rparr>)"

definition are_adjacent :: "graph \<Rightarrow> int \<Rightarrow> int \<Rightarrow> error + bool" where
  "are_adjacent g u v = ebind (py_get2 (adj_matrix g) u v) (\<lambda>a. Inr (a = 1))"

text \<open>
  The \<^verbatim>\<open>while start != end\<close> loop of \<^verbatim>\<open>get_shortest_path\<close> follows the \<^verbatim>\<open>next_node\<close>
  table; nothing in the loop itself bounds it, so it is a partial function.
\<close>

partial_function (option) path_loop ::
  "int list list \<Rightarrow> int \<Rightarrow> int \<Rightarrow> int list \<Rightarrow> (error + int list) option" where
  "path_loop nx end start path =
     (if start = end then Some (Inr path)
      else (case py_get2 nx start end of
              Inl e \<Rightarrow> Some (Inl e)
            | Inr s \<Rightarrow> if s = -1 then Some (Inr []) else path_loop nx end s (path @ [s])))"

declare path_loop.simps [code]

definition get_shortest_path :: "graph \<Rightarrow> int \<Rightarrow> int \<Rightarrow> (error + int list) option" where
  "get_shortest_path g start end =
     (case (dist g, next_node g) of
        (Some d, Some nx) \<Rightarrow>
          (case py_get2 d start end of
             Inl e \<Rightarrow> Some (Inl e)
           | Inr x \<Rightarrow> if x = \<infinity> then Some (Inr []) else path_loop nx end start [start])
      | _ \<Rightarrow> Some (Inl ValueError))"

section \<open>Placements\<close>

text \<open>
  \<^verbatim>\<open>Mapper\<close> and \<^verbatim>\<open>Router\<close> both own a pair of lists \<^verbatim>\<open>l_to_p\<close>, \<^verbatim>\<open>p_to_l\<close>. The
  connectivity graph and the interaction list a \<^verbatim>\<open>Mapper\<close> also stores are passed to the
  functions that use them.
\<close>

record placement =
  l_to_p :: "int list"
  p_to_l :: "int list"

record mapper = placement +
  qubits :: nat

definition Mapper :: "nat \<Rightarrow> mapper" where
  "Mapper q = \<lparr>l_to_p = map int [0..<q], p_to_l = map int [0..<q], qubits = q\<rparr>"

definition from_static_mapping :: "nat \<Rightarrow> int list \<Rightarrow> int list \<Rightarrow> mapper" where
  "from_static_mapping q l p = (Mapper q)\<lparr>l_to_p := l, p_to_l := p\<rparr>"

section \<open>The router\<close>

type_synonym cnot = "int \<times> int \<times> int"

record router = placement +
  cnots_list :: "cnot list"
  lookahead :: int
  topology :: graph

definition Router :: "nx_graph \<Rightarrow> 'a placement_scheme \<Rightarrow> cnot list \<Rightarrow> int \<Rightarrow> error + router" where
  "Router G m cnots la =
     ebind (from_nx (UnweightedUndirectedGraph (number_of_nodes G)) G) (\<lambda>g.
     Inr \<lparr>l_to_p = l_to_p m, p_to_l = p_to_l m, cnots_list = cnots, lookahead = la,
          topology = floyd_warshall g\<rparr>)"

text \<open>
  \<^verbatim>\<open>random.choice\<close> is the router's only source of chance. The draw is an argument: \<open>pick\<close>
  is the position \<^verbatim>\<open>choice\<close> selects in its three-element list.
\<close>

definition lookahead_window :: "router \<Rightarrow> int \<Rightarrow> cnot list" where
  \<comment> \<open>\<^verbatim>\<open>operations\<close>: the slice of the interaction list the strategy looks at\<close>
  "lookahead_window r begin =
     py_slice (cnots_list r) begin (min (begin + lookahead r) (int (length (cnots_list r))))"

definition touch_count :: "cnot list \<Rightarrow> int \<Rightarrow> nat" where
  \<comment> \<open>\<^verbatim>\<open>sum([1 for (c, t, _) in operations if c == q or t == q])\<close>\<close>
  "touch_count operations q = length (filter (\<lambda>(c, t, _). c = q \<or> t = q) operations)"

definition swap_strategy_by_lookahead :: "router \<Rightarrow> int \<Rightarrow> int \<Rightarrow> int \<Rightarrow> nat \<Rightarrow> int" where
  "swap_strategy_by_lookahead r begin control target pick =
     (let operations = lookahead_window r begin;
          control_count = touch_count operations control;
          target_count = touch_count operations target
      in if control_count = 0 \<and> target_count = 0 then [control, target, -1] ! (pick mod 3)
         else if control_count = 0 \<or> control_count \<ge> 2 * target_count then target
         else if target_count = 0 \<or> target_count \<ge> 2 * control_count then control
         else -1)"

definition swap_step :: "router \<Rightarrow> int \<Rightarrow> int \<Rightarrow> int \<Rightarrow> error + (int \<times> router)" where
  \<comment> \<open>one turn of the loop of \<^verbatim>\<open>__move_through_path\<close>: the SWAP of \<open>qubit\<close> with the occupant of \<open>node\<close>\<close>
  "swap_step r qubit qubit_node node =
     ebind (py_get (p_to_l r) node) (\<lambda>swap_qubit.
     ebind (py_set (p_to_l r) node qubit) (\<lambda>p1.
     ebind (py_set p1 qubit_node swap_qubit) (\<lambda>p2.
     ebind (py_set (l_to_p r) qubit node) (\<lambda>l1.
     ebind (py_set l1 swap_qubit qubit_node) (\<lambda>l2.
     Inr (swap_qubit, r\<lparr>l_to_p := l2, p_to_l := p2\<rparr>))))))"

fun move_through_path ::
  "router \<Rightarrow> int \<Rightarrow> int \<Rightarrow> int list \<Rightarrow> error + ((int \<times> int) list \<times> nat \<times> router)" where
  "move_through_path r qubit qubit_node [] = Inr ([], 0, r)"
| "move_through_path r qubit qubit_node (node # path) =
     ebind (swap_step r qubit qubit_node node) (\<lambda>(swap_qubit, r').
     ebind (move_through_path r' qubit node path) (\<lambda>(swaps_list, swaps, r'').
     Inr ((qubit, swap_qubit) # swaps_list, Suc swaps, r'')))"

definition split_paths :: "int list \<Rightarrow> int list \<times> int list" where
  \<comment> \<open>the branch \<^verbatim>\<open>strategy == -1\<close> of \<^verbatim>\<open>__apply_cnot\<close>\<close>
  "split_paths shortest_path =
     (let shortest_path_len = length shortest_path;
          control_edges = (if shortest_path_len mod 2 = 0 then shortest_path_len div 2
                           else (shortest_path_len + 1) div 2);
          control_path = py_slice shortest_path 0 (int control_edges);
          target_path = py_slice shortest_path (int control_edges) (int shortest_path_len)
      in (py_slice control_path 1 (int (length control_path)), py_slice target_path 0 (-1)))"

definition choose_paths :: "int \<Rightarrow> int \<Rightarrow> int \<Rightarrow> int list \<Rightarrow> (int list \<times> int list) option" where
  \<comment> \<open>the three \<^verbatim>\<open>if\<close> statements of \<^verbatim>\<open>__apply_cnot\<close>, in their order; \<open>None\<close> is "no branch taken"\<close>
  "choose_paths strategy control target shortest_path =
     (let p0 = (if strategy = -1 then Some (split_paths shortest_path) else None);
          p1 = (if strategy = control then Some (py_slice shortest_path 1 (-1), []) else p0);
          p2 = (if strategy = target then Some ([], rev (py_slice shortest_path 1 (-1))) else p1)
      in p2)"

definition apply_cnot ::
  "router \<Rightarrow> int \<Rightarrow> int \<Rightarrow> int \<Rightarrow> nat \<Rightarrow> (error + (((int \<times> int) list list \<times> nat) \<times> router)) option" where
  "apply_cnot r control target i pick =
     obind (Some (py_get (l_to_p r) control)) (\<lambda>control_node.
     obind (Some (py_get (l_to_p r) target)) (\<lambda>target_node.
     obind (Some (are_adjacent (topology r) control_node target_node)) (\<lambda>adjacent.
     if adjacent then Some (Inr (([], 0), r))
     else
     obind (get_shortest_path (topology r) control_node target_node) (\<lambda>shortest_path.
     (case choose_paths (swap_strategy_by_lookahead r i control target pick) control target
             shortest_path of
        None \<Rightarrow> Some (Inl UnboundLocalError)
      | Some (control_path, target_path) \<Rightarrow>
     obind (Some (move_through_path r control control_node control_path))
       (\<lambda>(control_swaps, control_swaps_count, r1).
     obind (Some (move_through_path r1 target target_node target_path))
       (\<lambda>(target_swaps, target_swaps_count, r2).
     Some (Inr (([control_swaps, target_swaps], control_swaps_count + target_swaps_count),
                r2)))))))))"

text \<open>
  The loop of \<^verbatim>\<open>route_circuit_portion\<close>. \<open>picks p\<close> is the draw available to the gate at
  position \<open>p\<close> of the routed prefix; \<open>p\<close> counts the gates already routed.
\<close>

fun route_loop ::
  "router \<Rightarrow> (nat \<Rightarrow> nat) \<Rightarrow> nat \<Rightarrow> cnot list \<Rightarrow>
     (error + ((nat \<times> (int \<times> int) list list list) \<times> router)) option" where
  "route_loop r picks p [] = Some (Inr ((0, []), r))"
| "route_loop r picks p ((c, t, i) # rest) =
     obind (apply_cnot r c t i (picks p)) (\<lambda>((new_swaps, new_swaps_count), r').
     obind (route_loop r' picks (Suc p) rest) (\<lambda>((swaps_count, swaps), r'').
     Some (Inr ((new_swaps_count + swaps_count, new_swaps # swaps), r''))))"

definition route_circuit_portion ::
  "router \<Rightarrow> (nat \<Rightarrow> nat) \<Rightarrow> int \<Rightarrow> (error + ((nat \<times> (int \<times> int) list list list) \<times> router)) option" where
  "route_circuit_portion r picks m = route_loop r picks 0 (py_slice (cnots_list r) 0 m)"

definition route_circuit ::
  "router \<Rightarrow> (nat \<Rightarrow> nat) \<Rightarrow> (error + ((nat \<times> (int \<times> int) list list list) \<times> router)) option" where
  "route_circuit r picks = route_circuit_portion r picks (int (length (cnots_list r)))"

section \<open>Interaction lists and test topologies\<close>

text \<open>
  An interaction list as \<^verbatim>\<open>get_interaction_list\<close> builds it carries, in each triple, the
  position of that triple in the list. The scenarios of the specification use line-shaped
  devices \<open>0 - 1 - ... - (n-1)\<close>.
\<close>

definition indexed :: "cnot list \<Rightarrow> bool" where
  "indexed cnots = (\<forall>p \<in> {0..<length cnots}. snd (snd (cnots ! p)) = int p)"

definition line_topology :: "nat \<Rightarrow> nx_graph" where
  "line_topology n =
     \<lparr>nodes = map int [0..<n], edges = map (\<lambda>i. (int i, int i + 1)) [0..<n - 1]\<rparr>"

section \<open>Walks in the adjacency matrix and the invariants of Floyd-Warshall\<close>

text \<open>
  \<open>walk A i xs j\<close>: starting at node \<open>i\<close> and visiting the nodes \<open>xs\<close> in turn, each step
  along an edge of the adjacency matrix, one arrives at \<open>j\<close>; the walk has \<open>length xs\<close>
  edges. The predicates below say of a pair of tables that they are \<open>n \<times> n\<close>, that every
  finite distance is the length of a walk whose first step is the recorded next node (and the
  diagonal is 0), that no walk through intermediate nodes below \<open>k\<close> is shorter than the
  recorded distance, and the last of these for one pair \<open>(i, j)\<close> and bound \<open>k + 1\<close>.
\<close>

fun walk :: "int list list \<Rightarrow> nat \<Rightarrow> nat list \<Rightarrow> nat \<Rightarrow> bool" where
  "walk A i [] j = (i = j)"
| "walk A i (x # xs) j = (A ! i ! x = 1 \<and> walk A x xs j)"

definition fw_shape :: "nat \<Rightarrow> enat list list \<times> int list list \<Rightarrow> bool" where
  "fw_shape n s = (length (fst s) = n \<and> (\<forall>i \<in> {0..<n}. length (fst s ! i) = n)
                 \<and> length (snd s) = n \<and> (\<forall>i \<in> {0..<n}. length (snd s ! i) = n))"

definition fw_sound :: "int list list \<Rightarrow> nat \<Rightarrow> enat list list \<times> int list list \<Rightarrow> bool" where
  "fw_sound A n s = (\<forall>i \<in> {0..<n}. \<forall>j \<in> {0..<n}.
      (i = j \<longrightarrow> fst s ! i ! j = 0) \<and>
      (i \<noteq> j \<longrightarrow> fst s ! i ! j \<noteq> \<infinity> \<longrightarrow>
         (\<exists>xs. walk A i xs j \<and> set xs \<subseteq> {0..<n} \<and> fst s ! i ! j = enat (length xs)
               \<and> snd s ! i ! j = int (hd xs))))"

definition fw_lb :: "int list list \<Rightarrow> nat \<Rightarrow> nat \<Rightarrow> enat list list \<times> int list list \<Rightarrow> bool" where
  "fw_lb A n k s = (\<forall>i \<in> {0..<n}. \<forall>j \<in> {0..<n}. \<forall>xs.
      walk A i xs j \<and> set xs \<subseteq> {0..<n} \<and> set (butlast xs) \<subseteq> {0..<k}
        \<longrightarrow> fst s ! i ! j \<le> enat (length xs))"

definition fw_done :: "int list list \<Rightarrow> nat \<Rightarrow> nat \<Rightarrow> nat \<Rightarrow> nat \<Rightarrow> enat list list \<times> int list list \<Rightarrow> bool" where
  "fw_done A n k i j s = (\<forall>xs.
      walk A i xs j \<and> set xs \<subseteq> {0..<n} \<and> set (butlast xs) \<subseteq> {0..<Suc k}
        \<longrightarrow> fst s ! i ! j \<le> enat (length xs))"

definition fw_inv :: "int list list \<Rightarrow> nat \<Rightarrow> nat \<Rightarrow> enat list list \<times> int list list \<Rightarrow> bool" where
  "fw_inv A n k s = (fw_shape n s \<and> fw_sound A n s \<and> fw_lb A n k s)"

text \<open>
  The permutation invariant of a placement over \<open>Q\<close> qubits: both lists have length \<open>Q\<close>,
  every logical qubit \<open>q\<close> sits on a node \<open>u\<close> in range with \<open>P2L[u] = q\<close>, and every
  node \<open>u\<close> holds a qubit \<open>q\<close> in range with \<open>L2P[q] = u\<close>. \<open>in_range\<close> is the weaker
  statement that all entries are valid indices, and \<open>wf_adj\<close> that the adjacency matrix is
  square of side \<open>num_nodes\<close>, as the constructor makes it.
\<close>

definition perm_inv :: "nat \<Rightarrow> 'a placement_scheme \<Rightarrow> bool" where
  "perm_inv Q m =
     (length (l_to_p m) = Q \<and> length (p_to_l m) = Q
      \<and> (\<forall>q \<in> {0..<Q}. \<exists>u \<in> {0..<Q}. l_to_p m ! q = int u \<and> p_to_l m ! u = int q)
      \<and> (\<forall>u \<in> {0..<Q}. \<exists>q \<in> {0..<Q}. p_to_l m ! u = int q \<and> l_to_p m ! q = int u))"

definition in_range :: "nat \<Rightarrow> 'a placement_scheme \<Rightarrow> bool" where
  "in_range Q m =
     (length (l_to_p m) = Q \<and> length (p_to_l m) = Q
      \<and> (\<forall>x \<in> set (l_to_p m). 0 \<le> x \<and> x < int Q)
      \<and> (\<forall>x \<in> set (p_to_l m). 0 \<le> x \<and> x < int Q))"

definition wf_adj :: "graph \<Rightarrow> bool" where
  "wf_adj g =
     (length (adj_matrix g) = num_nodes g
      \<and> (\<forall>i \<in> {0..<num_nodes g}. length (adj_matrix g ! i) = num_nodes g))"

definition empty_topology :: "nat \<Rightarrow> nx_graph" where
  "empty_topology n = \<lparr>nodes = map int [0..<n], edges = []\<rparr>"

section \<open>The refinement wrapper\<close>

text \<open>
  \<^verbatim>\<open>MapperUpdater\<close>: the constructor builds a router from the initial mapper, and
  \<^verbatim>\<open>update_mapping\<close> routes, builds a second mapper and a second router from the placement
  the first router ended with, routes again and compares the two counts. The two runs take
  their random draws from \<open>picks1\<close> and \<open>picks2\<close>.
\<close>

definition update_mapping ::
  "nx_graph \<Rightarrow> mapper \<Rightarrow> cnot list \<Rightarrow> int \<Rightarrow> (nat \<Rightarrow> nat) \<Rightarrow> (nat \<Rightarrow> nat) \<Rightarrow> (error + mapper) option" where
  "update_mapping G initial_mapper cnots la picks1 picks2 =
     obind (Some (Router G initial_mapper cnots la)) (\<lambda>router.
     obind (route_circuit router picks1) (\<lambda>((swaps_count, _), router1).
     (let new_mapper = from_static_mapping (number_of_nodes G) (l_to_p router1) (p_to_l router1) in
     obind (Some (Router G new_mapper cnots (lookahead router1))) (\<lambda>new_router.
     obind (route_circuit new_router picks2) (\<lambda>((new_swaps_count, _), _).
     Some (Inr (if new_swaps_count < swaps_count then new_mapper else initial_mapper)))))))"

section \<open>Python sets of integers\<close>

text \<open>
  A Python set of integers is modelled by the list of its elements in increasing order,
  and a loop over the set visits them in that order. (CPython iterates a set of small
  non-negative integers in increasing order; the language itself promises no order.)
\<close>

type_synonym pyset = "int list"

definition pyset_of :: "int list \<Rightarrow> pyset" where
  \<comment> \<open>\<^verbatim>\<open>set(xs)\<close>\<close>
  "pyset_of xs = sort (remdups xs)"

definition pyset_add :: "int \<Rightarrow> pyset \<Rightarrow> pyset" where
  "pyset_add x s = (if x \<in> set s then s else insort x s)"

definition pyset_discard :: "int \<Rightarrow> pyset \<Rightarrow> pyset" where
  "pyset_discard x s = removeAll x s"

definition pyset_remove :: "int \<Rightarrow> pyset \<Rightarrow> error + pyset" where
  "pyset_remove x s = (if x \<in> set s then Inr (removeAll x s) else Inl KeyError)"

section \<open>\<^verbatim>\<open>QubitInteractionsHandler\<close>\<close>

text \<open>
  The handler keeps the number of qubits, the set of qubits not yet placed and the matrix
  of interaction counts. Rows and columns of the matrix are read at indices drawn from
  \<^verbatim>\<open>range(qubits)\<close> except where the code subscripts with a caller's value.
\<close>

record qubit_interactions =
  n_qubits :: nat
  free_qubits :: pyset
  interactions_count :: "int list list"

fun count_cnots :: "int list list \<Rightarrow> cnot list \<Rightarrow> error + int list list" where
  "count_cnots m [] = Inr m"
| "count_cnots m ((i, j, _) # rest) =
     ebind (py_get2 m i j) (\<lambda>a.
     ebind (py_set2 m i j (a + 1)) (\<lambda>m1.
     ebind (py_get2 m1 j i) (\<lambda>b.
     ebind (py_set2 m1 j i (b + 1)) (\<lambda>m2.
     count_cnots m2 rest))))"

definition QubitInteractionsHandler :: "cnot list \<Rightarrow> nat \<Rightarrow> error + qubit_interactions" where
  "QubitInteractionsHandler cnots q =
     ebind (count_cnots (replicate q (replicate q 0)) cnots) (\<lambda>m.
     Inr \<lparr>n_qubits = q, free_qubits = pyset_of (map int [0..<q]), interactions_count = m\<rparr>)"

fun get_first_d_free_non_zero ::
  "qubit_interactions \<Rightarrow> nat \<Rightarrow> nat \<Rightarrow> pyset \<Rightarrow> (int \<times> int) list \<Rightarrow> pyset" where
  \<comment> \<open>the loop of \<^verbatim>\<open>__get_first_d_free_non_zero\<close>, with its two locals \<open>found\<close> and \<open>result\<close>\<close>
  "get_first_d_free_non_zero h d found result [] = result"
| "get_first_d_free_non_zero h d found result ((qubit, interactions) # rest) =
     (if interactions = 0 then result
      else if qubit \<in> set (free_qubits h)
           then (if Suc found = d then pyset_add qubit result
                 else get_first_d_free_non_zero h d (Suc found) (pyset_add qubit result) rest)
           else get_first_d_free_non_zero h d found result rest)"

definition sorted_row :: "qubit_interactions \<Rightarrow> int list \<Rightarrow> (int \<times> int) list" where
  \<comment> \<open>the pairs \<open>(j, row[j])\<close> for \<open>j\<close> in \<^verbatim>\<open>range(qubits)\<close>, sorted by decreasing count;
      Python's sort is stable, also with \<^verbatim>\<open>reverse=True\<close>\<close>
  "sorted_row h row =
     sort_key (\<lambda>(j, c). - c) (map (\<lambda>j. (int j, row ! j)) [0..<n_qubits h])"

definition d_interactions :: "qubit_interactions \<Rightarrow> int \<Rightarrow> nat \<Rightarrow> error + pyset" where
  "d_interactions h qubit d =
     ebind (py_get (interactions_count h) qubit) (\<lambda>row.
     Inr (get_first_d_free_non_zero h d 0 [] (sorted_row h row)))"

fun total_interactions ::
  "qubit_interactions \<Rightarrow> (int \<times> int) list \<Rightarrow> nat list \<Rightarrow> int \<Rightarrow> error + int" where
  \<comment> \<open>the loop \<^verbatim>\<open>for k in range(d)\<close> over the sorted row of one candidate\<close>
  "total_interactions h pairs [] acc = Inr acc"
| "total_interactions h pairs (k # ks) acc =
     ebind (py_get pairs (int k)) (\<lambda>(q, c).
     total_interactions h pairs ks (if q \<in> set (free_qubits h) then acc + c else acc))"

fun most_loop ::
  "qubit_interactions \<Rightarrow> nat \<Rightarrow> pyset \<Rightarrow> nat list \<Rightarrow> int \<times> int \<Rightarrow> error + (int \<times> int)" where
  \<comment> \<open>the loop \<^verbatim>\<open>for i in self.n\<close> with the pair \<open>(max_i, max_val)\<close>\<close>
  "most_loop h d target_qubits [] (max_i, max_val) = Inr (max_i, max_val)"
| "most_loop h d target_qubits (i # is) (max_i, max_val) =
     (if int i \<in> set target_qubits
      then ebind (total_interactions h (sorted_row h (interactions_count h ! i)) [0..<d] 0)
             (\<lambda>tot. most_loop h d target_qubits is
                         (if tot > max_val then (int i, tot) else (max_i, max_val)))
      else most_loop h d target_qubits is (max_i, max_val))"

definition qubit_with_most_d_interactions_from_set ::
  "qubit_interactions \<Rightarrow> nat \<Rightarrow> pyset \<Rightarrow> error + (int \<times> pyset)" where
  "qubit_with_most_d_interactions_from_set h d target_qubits =
     ebind (most_loop h d target_qubits [0..<n_qubits h] (-1, -1)) (\<lambda>(candidate, _).
     ebind (py_get (map (\<lambda>i. sorted_row h (interactions_count h ! i)) [0..<n_qubits h]) candidate)
       (\<lambda>pairs. Inr (candidate, get_first_d_free_non_zero h d 0 [] pairs)))"

definition qubit_with_most_d_interactions ::
  "qubit_interactions \<Rightarrow> nat \<Rightarrow> error + (int \<times> pyset)" where
  "qubit_with_most_d_interactions h d =
     qubit_with_most_d_interactions_from_set h d (free_qubits h)"

definition map_qubit :: "qubit_interactions \<Rightarrow> int \<Rightarrow> qubit_interactions" where
  "map_qubit h q =
     (if \<not> (0 \<le> q \<and> q < int (n_qubits h)) then h
      else h\<lparr>free_qubits := pyset_discard q (free_qubits h)\<rparr>)"

section \<open>The driver: SWAP gates of the rewritten gate stream\<close>

text \<open>
  \<^verbatim>\<open>__update_circuit\<close> keeps a dictionary \<^verbatim>\<open>current_wires\<close> over the keys
  \<^verbatim>\<open>range(qubits)\<close>, here the list of its values, and for every recorded pair \<open>(q1, q2)\<close>
  of one movement list appends the gate \<^verbatim>\<open>SWAP(wires=[current_wires[q1], current_wires[q2]])\<close>
  and exchanges the two entries. \<open>emit_swaps\<close> is that loop; it returns the wire pairs of
  the SWAP gates it appends and the dictionary.
\<close>

definition dict_get :: "int list \<Rightarrow> int \<Rightarrow> error + int" where
  "dict_get d k = (if 0 \<le> k \<and> k < int (length d) then Inr (d ! nat k) else Inl KeyError)"

fun emit_swaps :: "int list \<Rightarrow> (int \<times> int) list \<Rightarrow> error + ((int \<times> int) list \<times> int list)" where
  "emit_swaps current_wires [] = Inr ([], current_wires)"
| "emit_swaps current_wires ((q1, q2) # movements) =
     ebind (dict_get current_wires q1) (\<lambda>w1.
     ebind (dict_get current_wires q2) (\<lambda>w2.
     ebind (emit_swaps (current_wires[nat q1 := w2, nat q2 := w1]) movements) (\<lambda>(ops, cw).
     Inr ((w1, w2) # ops, cw))))"






section \<open>\<^verbatim>\<open>heapq\<close> with \<^verbatim>\<open>MaxHeapObj\<close> elements\<close>

text \<open>
  A heap element is a \<^verbatim>\<open>KeyValMaxHeapObj\<close>, here the pair \<open>(key, val)\<close>; its \<^verbatim>\<open>__lt__\<close>
  compares the values the other way round. \<^verbatim>\<open>MaxHeap\<close> hands its list to the standard
  library's \<^verbatim>\<open>heapq.heappush\<close> and \<^verbatim>\<open>heapq.heappop\<close>, whose two sift loops are transcribed
  here; they subscript the list only at positions they have compared with its length.
\<close>

type_synonym heap_obj = "int \<times> int"

definition obj_lt :: "heap_obj \<Rightarrow> heap_obj \<Rightarrow> bool" where
  \<comment> \<open>\<^verbatim>\<open>MaxHeapObj.__lt__\<close>: \<^verbatim>\<open>self.val > other.val\<close>\<close>
  "obj_lt a b = (snd a > snd b)"

function siftdown_loop :: "heap_obj list \<Rightarrow> nat \<Rightarrow> nat \<Rightarrow> heap_obj \<Rightarrow> heap_obj list" where
  "siftdown_loop heap startpos pos newitem =
     (if pos > startpos
      then (let parentpos = (pos - 1) div 2; parent = heap ! parentpos
            in if obj_lt newitem parent
               then siftdown_loop (heap[pos := parent]) startpos parentpos newitem
               else heap[pos := newitem])
      else heap[pos := newitem])"
  by pat_completeness auto
termination
  by (relation "measure (\<lambda>(heap, startpos, pos, newitem). pos)") auto

definition siftdown :: "heap_obj list \<Rightarrow> nat \<Rightarrow> nat \<Rightarrow> heap_obj list" where
  "siftdown heap startpos pos = siftdown_loop heap startpos pos (heap ! pos)"

function siftup_loop :: "heap_obj list \<Rightarrow> nat \<Rightarrow> heap_obj list \<times> nat" where
  "siftup_loop heap pos =
     (let endpos = length heap; childpos = 2 * pos + 1
      in if childpos < endpos
         then (let rightpos = childpos + 1;
                   childpos' = (if rightpos < endpos \<and> \<not> obj_lt (heap ! childpos) (heap ! rightpos)
                                then rightpos else childpos)
               in siftup_loop (heap[pos := heap ! childpos']) childpos')
         else (heap, pos))"
  by pat_completeness auto
termination
  by (relation "measure (\<lambda>(heap, pos). length heap - pos)") (auto simp: Let_def)

definition siftup :: "heap_obj list \<Rightarrow> nat \<Rightarrow> heap_obj list" where
  "siftup heap pos =
     (let newitem = heap ! pos
      in case siftup_loop heap pos of (heap', pos') \<Rightarrow> siftdown (heap'[pos' := newitem]) pos pos')"

definition heappush :: "heap_obj list \<Rightarrow> heap_obj \<Rightarrow> heap_obj list" where
  "heappush heap item = siftdown (heap @ [item]) 0 (length heap)"

definition heappop :: "heap_obj list \<Rightarrow> error + (heap_obj \<times> heap_obj list)" where
  "heappop heap =
     (if heap = [] then Inl IndexError
      else (let lastelt = last heap; heap' = butlast heap
            in if heap' \<noteq> [] then Inr (heap' ! 0, siftup (heap'[0 := lastelt]) 0)
               else Inr (lastelt, [])))"

section \<open>\<^verbatim>\<open>MajorityMapper\<close>\<close>

text \<open>
  The constructor builds the sets \<^verbatim>\<open>interact[q]\<close>, pushes every qubit with the size of its
  set, then computes for every node \<open>u\<close> of the topology \<^verbatim>\<open>len(list(self.connectivity.adj(u)))\<close>
  and pushes the nodes; \<^verbatim>\<open>compute_mapping\<close> pops both heaps \<open>qubits\<close> times. The
  attribute \<^verbatim>\<open>adj\<close> of a \<^verbatim>\<open>networkx.Graph\<close> is a mapping view that is subscripted,
  \<^verbatim>\<open>G.adj[u]\<close>; it has no call operator, so the call \<^verbatim>\<open>G.adj(u)\<close> raises \<^verbatim>\<open>TypeError\<close>:
  that is \<open>nx_adj_call\<close>. \<open>nx_adj_subscript\<close> is \<^verbatim>\<open>G.adj[u]\<close>. The mapper takes the
  expression it evaluates for a node as its first argument, so that both can be stated.
\<close>

definition nx_adj_call :: "nx_graph \<Rightarrow> int \<Rightarrow> error + int list" where
  "nx_adj_call G u = Inl TypeError"

definition nx_adj_subscript :: "nx_graph \<Rightarrow> int \<Rightarrow> error + int list" where
  "nx_adj_subscript G u = (if u \<in> set (nodes G) then Inr (neighbors G u) else Inl KeyError)"

fun build_interact :: "pyset list \<Rightarrow> cnot list \<Rightarrow> error + pyset list" where
  "build_interact interact [] = Inr interact"
| "build_interact interact ((i, j, _) # rest) =
     ebind (py_get interact i) (\<lambda>si.
     ebind (py_set interact i (pyset_add j si)) (\<lambda>interact1.
     ebind (py_get interact1 j) (\<lambda>sj.
     ebind (py_set interact1 j (pyset_add i sj)) (\<lambda>interact2.
     build_interact interact2 rest))))"

fun neighbour_sizes :: "(nx_graph \<Rightarrow> int \<Rightarrow> error + int list) \<Rightarrow> nx_graph \<Rightarrow> int list
                          \<Rightarrow> error + heap_obj list" where
  \<comment> \<open>the list comprehension \<^verbatim>\<open>connectivity_nodes_neighbour_size\<close>\<close>
  "neighbour_sizes adj G [] = Inr []"
| "neighbour_sizes adj G (u # us) =
     ebind (adj G u) (\<lambda>nbrs.
     ebind (neighbour_sizes adj G us) (\<lambda>rest.
     Inr ((u, int (length nbrs)) # rest)))"

fun majority_loop :: "nat \<Rightarrow> heap_obj list \<Rightarrow> heap_obj list \<Rightarrow> mapper \<Rightarrow> error + mapper" where
  \<comment> \<open>\<^verbatim>\<open>MajorityMapper.compute_mapping\<close>: the loop \<^verbatim>\<open>for _ in range(self.qubits)\<close>\<close>
  "majority_loop 0 heap graph_neighbours_heap m = Inr m"
| "majority_loop (Suc n) heap graph_neighbours_heap m =
     ebind (heappop heap) (\<lambda>(qubit_heap_max, heap').
     ebind (heappop graph_neighbours_heap) (\<lambda>(node_heap_max, graph_neighbours_heap').
     (let qubit = fst qubit_heap_max; node = fst node_heap_max in
     ebind (py_set (l_to_p m) qubit node) (\<lambda>l.
     ebind (py_set (p_to_l m) node qubit) (\<lambda>p.
     majority_loop n heap' graph_neighbours_heap' (m\<lparr>l_to_p := l, p_to_l := p\<rparr>))))))"

definition MajorityMapper ::
  "(nx_graph \<Rightarrow> int \<Rightarrow> error + int list) \<Rightarrow> nx_graph \<Rightarrow> cnot list \<Rightarrow> nat \<Rightarrow> error + mapper" where
  "MajorityMapper adj G cnots q =
     ebind (build_interact (replicate q []) cnots) (\<lambda>interact.
     (let heap = fold (\<lambda>q h. heappush h (int q, int (length (interact ! q)))) [0..<q] [] in
     ebind (neighbour_sizes adj G (nodes G)) (\<lambda>connectivity_nodes_neighbour_size.
     (let graph_neighbours_heap = fold (\<lambda>el h. heappush h el) connectivity_nodes_neighbour_size []
      in majority_loop q heap graph_neighbours_heap (Mapper q)))))"

section \<open>\<^verbatim>\<open>FreeTopologyNodesHandler\<close>\<close>

text \<open>
  The handler keeps the node list of the graph, the set of free nodes and, in a list
  subscripted by node label, the set of free neighbours of every node.
\<close>

record topology_handler =
  th_nodes :: "int list"
  free_nodes :: pyset
  free_neighbours :: "pyset list"

fun add_neighbours :: "pyset list \<Rightarrow> int \<Rightarrow> int list \<Rightarrow> error + pyset list" where
  "add_neighbours fn v [] = Inr fn"
| "add_neighbours fn v (u # us) =
     ebind (py_get fn v) (\<lambda>s.
     ebind (py_set fn v (pyset_add u s)) (\<lambda>fn'.
     add_neighbours fn' v us))"

fun init_neighbours :: "nx_graph \<Rightarrow> pyset list \<Rightarrow> int list \<Rightarrow> error + pyset list" where
  "init_neighbours G fn [] = Inr fn"
| "init_neighbours G fn (v # vs) =
     ebind (add_neighbours fn v (neighbors G v)) (\<lambda>fn'. init_neighbours G fn' vs)"

definition FreeTopologyNodesHandler :: "nx_graph \<Rightarrow> error + topology_handler" where
  "FreeTopologyNodesHandler G =
     ebind (init_neighbours G (replicate (length (nodes G)) []) (nodes G)) (\<lambda>fn.
     Inr \<lparr>th_nodes = nodes G, free_nodes = pyset_of (nodes G), free_neighbours = fn\<rparr>)"

fun sizes_of :: "pyset list \<Rightarrow> int list \<Rightarrow> error + (int \<times> nat) list" where
  \<comment> \<open>\<^verbatim>\<open>[(v, len(self.free_neighbours[v])) for v in nodes]\<close>\<close>
  "sizes_of fn [] = Inr []"
| "sizes_of fn (v # vs) =
     ebind (py_get fn v) (\<lambda>s.
     ebind (sizes_of fn vs) (\<lambda>rest.
     Inr ((v, length s) # rest)))"

fun max_by_size :: "int \<times> nat \<Rightarrow> (int \<times> nat) list \<Rightarrow> int \<times> nat" where
  \<comment> \<open>\<^verbatim>\<open>max(..., key=lambda el: el[1])\<close> keeps the first element of maximal key\<close>
  "max_by_size best [] = best"
| "max_by_size best (x # xs) = max_by_size (if snd x > snd best then x else best) xs"

definition node_with_most_free_neighbours_set ::
  "topology_handler \<Rightarrow> pyset \<Rightarrow> error + (int \<times> pyset)" where
  "node_with_most_free_neighbours_set th ns =
     ebind (sizes_of (free_neighbours th) ns) (\<lambda>ps.
     (case ps of
        [] \<Rightarrow> Inl ValueError
      | p # rest \<Rightarrow>
          (let node = fst (max_by_size p rest)
           in ebind (py_get (free_neighbours th) node) (\<lambda>nb. Inr (node, nb)))))"

definition free_node_with_most_free_neighbours :: "topology_handler \<Rightarrow> error + (int \<times> pyset)" where
  "free_node_with_most_free_neighbours th = node_with_most_free_neighbours_set th (free_nodes th)"

fun discard_everywhere :: "pyset list \<Rightarrow> int \<Rightarrow> int list \<Rightarrow> error + pyset list" where
  \<comment> \<open>\<^verbatim>\<open>for w in self.nodes: self.free_neighbours[w].discard(v)\<close>\<close>
  "discard_everywhere fn v [] = Inr fn"
| "discard_everywhere fn v (w # ws) =
     ebind (py_get fn w) (\<lambda>s.
     ebind (py_set fn w (pyset_discard v s)) (\<lambda>fn'.
     discard_everywhere fn' v ws))"

definition occupy_node :: "topology_handler \<Rightarrow> int \<Rightarrow> error + topology_handler" where
  "occupy_node th v =
     ebind (pyset_remove v (free_nodes th)) (\<lambda>free'.
     ebind (discard_everywhere (free_neighbours th) v (th_nodes th)) (\<lambda>fn'.
     Inr (th\<lparr>free_nodes := free', free_neighbours := fn'\<rparr>)))"

section \<open>\<^verbatim>\<open>MaxInteractingPairsMapping\<close>\<close>

text \<open>
  The state of \<^verbatim>\<open>compute_mapping\<close>: the two placement lists, the two handlers, the queue
  and the counter \<^verbatim>\<open>to_do\<close>. The local \<^verbatim>\<open>node_neighbours\<close> is the very set object stored
  in \<^verbatim>\<open>free_neighbours[node]\<close>, so the model reads and writes it there; the local
  \<^verbatim>\<open>qubit_neighbours\<close> is a set of its own. \<open>expand\<close> is the loop
  \<^verbatim>\<open>for i in range(iters)\<close>, \<open>mp_step\<close> one turn of the \<^verbatim>\<open>while\<close> loop and \<open>mp_loop\<close>
  that loop, which has no syntactic bound.
\<close>

record mp_state = placement +
  qi :: qubit_interactions
  th :: topology_handler
  queue :: "(int \<times> int) list"
  to_do :: int

fun expand :: "nat \<Rightarrow> int \<Rightarrow> int \<Rightarrow> pyset \<Rightarrow> mp_state \<Rightarrow> error + mp_state" where
  "expand 0 node qubit qubit_neighbours st = Inr st"
| "expand (Suc n) node qubit qubit_neighbours st =
     ebind (py_get (free_neighbours (th st)) node) (\<lambda>node_neighbours.
     ebind (node_with_most_free_neighbours_set (th st) node_neighbours)
       (\<lambda>(neighbour, neighbour_neighbours).
     ebind (qubit_with_most_d_interactions_from_set (qi st) (length neighbour_neighbours)
              qubit_neighbours)
       (\<lambda>(neighbour_qubit, neighbour_qubit_interactions).
     if qubit \<noteq> -1
     then ebind (occupy_node (th st) neighbour) (\<lambda>th1.
          ebind (py_set (l_to_p st) neighbour_qubit neighbour) (\<lambda>l.
          ebind (py_set (p_to_l st) neighbour neighbour_qubit) (\<lambda>p.
          ebind (py_get (free_neighbours th1) node) (\<lambda>nn.
          ebind (py_set (free_neighbours th1) node (pyset_discard neighbour nn)) (\<lambda>fn2.
          expand n node qubit (pyset_discard neighbour_qubit qubit_neighbours)
            (st\<lparr>l_to_p := l, p_to_l := p,
                qi := map_qubit (qi st) neighbour_qubit,
                th := th1\<lparr>free_neighbours := fn2\<rparr>,
                queue := queue st @ [(neighbour, neighbour_qubit)],
                to_do := to_do st - 1\<rparr>))))))
     else expand n node qubit qubit_neighbours st)))"

definition mp_step :: "mp_state \<Rightarrow> error + mp_state" where
  "mp_step st =
     (case queue st of
        [] \<Rightarrow>
          ebind (free_node_with_most_free_neighbours (th st)) (\<lambda>(node, node_neighbours0).
          ebind (qubit_with_most_d_interactions (qi st) (length node_neighbours0))
            (\<lambda>(qubit, qubit_neighbours).
          ebind (py_set (l_to_p st) qubit node) (\<lambda>l.
          ebind (py_set (p_to_l st) node qubit) (\<lambda>p.
          ebind (occupy_node (th st) node) (\<lambda>th1.
          ebind (py_get (free_neighbours th1) node) (\<lambda>node_neighbours.
          expand (min (length qubit_neighbours) (length node_neighbours)) node qubit
            qubit_neighbours
            (st\<lparr>l_to_p := l, p_to_l := p, qi := map_qubit (qi st) qubit, th := th1,
                to_do := to_do st - 1\<rparr>)))))))
      | (node, qubit) # rest \<Rightarrow>
          ebind (py_get (free_neighbours (th st)) node) (\<lambda>node_neighbours.
          ebind (d_interactions (qi st) qubit (length node_neighbours)) (\<lambda>qubit_neighbours.
          expand (min (length qubit_neighbours) (length node_neighbours)) node qubit
            qubit_neighbours (st\<lparr>queue := rest\<rparr>))))"

partial_function (option) mp_loop :: "mp_state \<Rightarrow> (error + mp_state) option" where
  "mp_loop st =
     (if to_do st = 0 then Some (Inr st)
      else (case mp_step st of Inl e \<Rightarrow> Some (Inl e) | Inr st' \<Rightarrow> mp_loop st'))"

declare mp_loop.simps [code]

definition MaxInteractingPairsMapping :: "nx_graph \<Rightarrow> cnot list \<Rightarrow> nat \<Rightarrow> (error + mapper) option" where
  "MaxInteractingPairsMapping G cnots q =
     obind (Some (QubitInteractionsHandler cnots q)) (\<lambda>qubit_interactions.
     obind (Some (FreeTopologyNodesHandler G)) (\<lambda>topology_handler.
     obind (mp_loop \<lparr>l_to_p = replicate q (-1), p_to_l = replicate q (-1),
                      qi = qubit_interactions, th = topology_handler, queue = [],
                      to_do = int q\<rparr>) (\<lambda>st.
     Some (Inr \<lparr>l_to_p = l_to_p st, p_to_l = p_to_l st, qubits = q\<rparr>))))"

(*DEFS-END*)

section \<open>Basic facts about the error monads\<close>


lemma ebind_simps [simp]: "ebind (Inr x) f = f x" "ebind (Inl e) f = Inl e"
  by (simp_all add: ebind_def)

lemma obind_simps [simp]:
  "obind None f = None" "obind (Some (Inl e)) f = Some (Inl e)" "obind (Some (Inr x)) f = f x"
  by (simp_all add: obind_def)

lemma ebind_eq_Inr: "ebind m f = Inr y \<longleftrightarrow> (\<exists>x. m = Inr x \<and> f x = Inr y)"
  by (cases m) simp_all

lemma obind_eq_Some_Inr: "obind m f = Some (Inr y) \<longleftrightarrow> (\<exists>x. m = Some (Inr x) \<and> f x = Some (Inr y))"
  by (cases m; cases "the m") auto

lemma window_contains_self:
  assumes "p < length (cnots_list r)" "1 \<le> lookahead r"
  shows "cnots_list r ! p \<in> set (lookahead_window r (int p))"
proof -
  let ?xs = "cnots_list r"
  let ?e = "py_clamp (length ?xs) (min (int p + lookahead r) (int (length ?xs)))"
  have b: "py_clamp (length ?xs) (int p) = p" using assms by (simp add: py_clamp_def)
  have e: "p < ?e" using assms by (auto simp add: py_clamp_def min_def)
  have "take (?e - p) (drop p ?xs) ! 0 = ?xs ! p" using assms e by simp
  moreover have "0 < length (take (?e - p) (drop p ?xs))" using assms e by simp
  ultimately have "?xs ! p \<in> set (take (?e - p) (drop p ?xs))" by (metis nth_mem)
  then show ?thesis by (simp add: lookahead_window_def py_slice_def b Let_def)
qed

lemma touch_count_pos:
  assumes "(c, t, i) \<in> set ops" "q = c \<or> q = t"
  shows "1 \<le> touch_count ops q"
proof -
  have "(c, t, i) \<in> set (filter (\<lambda>(c, t, _). c = q \<or> t = q) ops)" using assms by auto
  then have "filter (\<lambda>(c, t, _). c = q \<or> t = q) ops \<noteq> []" by (metis empty_iff empty_set)
  then show ?thesis by (simp add: touch_count_def Suc_le_eq)
qed

lemma strategy_no_pick:
  assumes "(c, t, i) \<in> set (lookahead_window r i)"
  shows "swap_strategy_by_lookahead r i c t pick = swap_strategy_by_lookahead r i c t pick'"
  using touch_count_pos[OF assms, of c] by (simp add: swap_strategy_by_lookahead_def Let_def)

lemma apply_cnot_no_pick:
  assumes "(c, t, i) \<in> set (lookahead_window r i)"
  shows "apply_cnot r c t i pick = apply_cnot r c t i pick'"
  unfolding apply_cnot_def using strategy_no_pick[OF assms, of pick pick'] by presburger

lemma swap_step_fields:
  "swap_step r q qn node = Inr (sq, r') \<Longrightarrow>
     cnots_list r' = cnots_list r \<and> lookahead r' = lookahead r \<and> topology r' = topology r"
  by (auto simp: swap_step_def ebind_eq_Inr)

lemma move_through_path_fields:
  "move_through_path r q qn path = Inr (sl, n, r') \<Longrightarrow>
     cnots_list r' = cnots_list r \<and> lookahead r' = lookahead r \<and> topology r' = topology r"
proof (induction path arbitrary: r qn sl n)
  case Nil then show ?case by simp
next
  case (Cons node path)
  then show ?case
    by (auto simp: ebind_eq_Inr dest!: swap_step_fields) 
qed

lemma apply_cnot_fields:
  assumes "apply_cnot r c t i pick = Some (Inr (res, r'))"
  shows "cnots_list r' = cnots_list r \<and> lookahead r' = lookahead r \<and> topology r' = topology r"
  using assms unfolding apply_cnot_def
  by (auto simp: obind_eq_Some_Inr split: if_splits option.splits prod.splits dest!: move_through_path_fields)


lemma in_own_window:
  assumes "indexed (cnots_list r)" "1 \<le> lookahead r" "(c, t, i) \<in> set (cnots_list r)"
  shows "(c, t, i) \<in> set (lookahead_window r i)"
proof -
  from assms(3) obtain p where p: "p < length (cnots_list r)" "cnots_list r ! p = (c, t, i)"
    by (auto simp: in_set_conv_nth)
  from assms(1) p(1) have "snd (snd (cnots_list r ! p)) = int p" by (simp add: indexed_def)
  with p(2) have "i = int p" by simp
  with window_contains_self[OF p(1) assms(2)] p(2) show ?thesis by simp
qed

lemma route_loop_no_pick:
  assumes "\<forall>(c, t, i) \<in> set xs. (c, t, i) \<in> set (lookahead_window r i)"
  shows "route_loop r picks p xs = route_loop r picks' p' xs"
  using assms
proof (induction xs arbitrary: r p p')
  case Nil
  then show ?case by simp
next
  case (Cons x xs)
  obtain c t i where x: "x = (c, t, i)" by (cases x) auto
  from Cons.prems x have win: "(c, t, i) \<in> set (lookahead_window r i)" by simp
  have a: "apply_cnot r c t i (picks p) = apply_cnot r c t i (picks' p')"
    by (rule apply_cnot_no_pick[OF win])
  show ?case
  proof (cases "apply_cnot r c t i (picks' p')")
    case None
    then show ?thesis using a x by simp
  next
    case (Some res)
    show ?thesis
    proof (cases res)
      case (Inl e)
      then show ?thesis using a x Some by simp
    next
      case (Inr v)
      obtain sw n r' where v: "v = ((sw, n), r')" by (cases v) auto
      from apply_cnot_fields[of r c t i "picks' p'" "(sw, n)" r'] Some Inr v
      have f: "cnots_list r' = cnots_list r" "lookahead r' = lookahead r" by simp_all
      then have "lookahead_window r' = lookahead_window r"
        by (simp add: lookahead_window_def fun_eq_iff)
      with Cons.prems have "\<forall>(c, t, i) \<in> set xs. (c, t, i) \<in> set (lookahead_window r' i)"
        by simp
      from Cons.IH[OF this, of "Suc p" "Suc p'"] show ?thesis
        using a x Some Inr v by simp
    qed
  qed
qed

section \<open>C10: the lookahead window contains the gate being routed\<close>

text \<open>
  Claim C10. When the triple at position \<open>p\<close> of the interaction list carries \<open>p\<close> as its
  third component and the lookahead is at least 1, the window examined for a triple
  \<open>(c, t, seq)\<close> contains that triple, both counts are at least 1, the strategy does not
  depend on the random draw, and neither does the result of routing a prefix or the whole
  list: the three-way random choice is never reached.
\<close>

theorem lookahead_window_contains_current_gate:
  assumes "indexed (cnots_list r)" and "1 \<le> lookahead r"
  shows "(\<forall>p \<in> {0..<length (cnots_list r)}. \<forall>c t seq. cnots_list r ! p = (c, t, seq) \<longrightarrow>
            (c, t, seq) \<in> set (lookahead_window r seq)
          \<and> 1 \<le> touch_count (lookahead_window r seq) c
          \<and> 1 \<le> touch_count (lookahead_window r seq) t
          \<and> (\<forall>pick pick'. swap_strategy_by_lookahead r seq c t pick
                             = swap_strategy_by_lookahead r seq c t pick'))
       \<and> (\<forall>picks picks' m. route_circuit_portion r picks m = route_circuit_portion r picks' m)
       \<and> (\<forall>picks picks'. route_circuit r picks = route_circuit r picks')"
proof -
  have own: "(c, t, i) \<in> set (lookahead_window r i)" if "(c, t, i) \<in> set (cnots_list r)" for c t i
    using in_own_window[OF assms that] .
  have one: "(c, t, seq) \<in> set (lookahead_window r seq)
          \<and> 1 \<le> touch_count (lookahead_window r seq) c
          \<and> 1 \<le> touch_count (lookahead_window r seq) t
          \<and> (\<forall>pick pick'. swap_strategy_by_lookahead r seq c t pick
                             = swap_strategy_by_lookahead r seq c t pick')"
    if "p < length (cnots_list r)" "cnots_list r ! p = (c, t, seq)" for p c t seq
  proof -
    from that have "(c, t, seq) \<in> set (cnots_list r)" by (metis nth_mem)
    then have w: "(c, t, seq) \<in> set (lookahead_window r seq)" by (rule own)
    show ?thesis
      using w touch_count_pos[OF w, of c] touch_count_pos[OF w, of t] strategy_no_pick[OF w]
      by blast
  qed
  have portion: "route_circuit_portion r picks m = route_circuit_portion r picks' m" for picks picks' m
  proof -
    have "set (py_slice (cnots_list r) 0 m) \<subseteq> set (cnots_list r)"
      unfolding py_slice_def Let_def by (meson order_trans set_drop_subset set_take_subset)
    then have "\<forall>(c, t, i) \<in> set (py_slice (cnots_list r) 0 m). (c, t, i) \<in> set (lookahead_window r i)"
      using own by auto
    from route_loop_no_pick[OF this] show ?thesis by (simp add: route_circuit_portion_def)
  qed
  show ?thesis using one portion by (auto simp: route_circuit_def)
qed

theorem lookahead_window_contains_current_gate_witness:
  "case Router (line_topology 4) (Mapper 4) [(0, 3, 0), (1, 3, 1)] 10 of
     Inl e \<Rightarrow> False
   | Inr r \<Rightarrow> indexed (cnots_list r) \<and> 1 \<le> lookahead r
            \<and> (0, 3, 0) \<in> set (lookahead_window r 0)
            \<and> route_circuit r (\<lambda>p. 0) = route_circuit r (\<lambda>p. 2)"
proof (cases "Router (line_topology 4) (Mapper 4) [(0, 3, 0), (1, 3, 1)] 10")
  case (Inl e)
  have "case Router (line_topology 4) (Mapper 4) [(0, 3, 0), (1, 3, 1)] 10 of
          Inl e \<Rightarrow> False | Inr r \<Rightarrow> True" by code_simp
  with Inl show ?thesis by simp
next
  case (Inr r)
  have "case Router (line_topology 4) (Mapper 4) [(0, 3, 0), (1, 3, 1)] 10 of
          Inl e \<Rightarrow> False
        | Inr r \<Rightarrow> indexed (cnots_list r) \<and> 1 \<le> lookahead r \<and> cnots_list r ! 0 = (0, 3, 0)
                   \<and> 0 < length (cnots_list r)"
    by code_simp
  with Inr have h: "indexed (cnots_list r)" "1 \<le> lookahead r" "cnots_list r ! 0 = (0, 3, 0)"
    "0 < length (cnots_list r)" by simp_all
  note main = lookahead_window_contains_current_gate[OF h(1,2)]
  from h(4) have "0 \<in> {0..<length (cnots_list r)}" by simp
  with main h(3) have "(0, 3, 0) \<in> set (lookahead_window r 0)" by blast
  moreover from main have "route_circuit r (\<lambda>p. 0) = route_circuit r (\<lambda>p. 2)" by blast
  ultimately show ?thesis using h Inr by simp
qed

section \<open>C2: adjacency after a gate has been routed\<close>

text \<open>
  Claim C2 says that after the router has processed a triple \<open>(c, t, _)\<close> the nodes
  \<open>L2P[c]\<close> and \<open>L2P[t]\<close> are adjacent, whichever branch was taken. The code evaluated on
  the line \<open>0 - 1 - 2 - 3 - 4 - 5\<close> with the single gate \<open>(0, 5)\<close> and the identity placement:
  both counts are 1, the split-evenly branch is taken, the path has six nodes, the control
  walks \<open>[1, 2]\<close> and the target, which sits on node 5, walks \<open>[3, 4]\<close> in that order
  (the slice is not reversed, unlike in the move-target branch). The gate ends with the
  control on node 2 and the target on node 4, which are not adjacent.
\<close>

theorem split_evenly_leaves_gate_nonadjacent:
  "case Router (line_topology 6) (Mapper 6) [(0, 5, 0)] 10 of
     Inl e \<Rightarrow> False
   | Inr r \<Rightarrow>
       (case route_circuit r picks of
          Some (Inr ((swaps_count, swaps), r')) \<Rightarrow>
            swaps = [[[(0, 1), (0, 2)], [(5, 3), (5, 4)]]]
          \<and> l_to_p r' = [2, 0, 1, 5, 3, 4]
          \<and> are_adjacent (topology r') (l_to_p r' ! 0) (l_to_p r' ! 5) = Inr False
        | _ \<Rightarrow> False)"
  by code_simp

lemma walk_append:
  "walk A i (us @ vs) j \<longleftrightarrow> walk A i us (last (i # us)) \<and> walk A (last (i # us)) vs j"
  by (induction us arbitrary: i) auto

lemma walk_last: "walk A i xs j \<Longrightarrow> xs \<noteq> [] \<Longrightarrow> last xs = j"
  by (induction xs arbitrary: i) (auto split: if_splits)

lemma walk_split:
  assumes w: "walk A i xs j" and k: "k \<in> set (butlast xs)"
    and int: "set (butlast xs) \<subseteq> {0..<Suc k}"
  shows "\<exists>ys zs. walk A i ys k \<and> walk A k zs j
            \<and> set (butlast ys) \<subseteq> {0..<k} \<and> set (butlast zs) \<subseteq> {0..<k}
            \<and> set ys \<subseteq> set xs \<and> set zs \<subseteq> set xs \<and> length ys + length zs \<le> length xs"
proof -
  from k have ne: "xs \<noteq> []" by auto
  then have xs: "xs = butlast xs @ [j]" using walk_last[OF w] by (metis append_butlast_last_id)
  from k obtain as bs where ab: "butlast xs = as @ k # bs" "k \<notin> set as"
    by (meson split_list_first)
  have "k \<in> set (k # bs)" by simp
  then obtain cs es where ce: "k # bs = cs @ k # es" "k \<notin> set es"
    by (meson split_list_last)
  have x1: "xs = (as @ [k]) @ (bs @ [j])" using xs ab by simp
  have x2: "xs = (as @ cs @ [k]) @ (es @ [j])" using xs ab ce by simp
  from w x1 have w1: "walk A i (as @ [k]) k"
    by (metis walk_append last_ConsR last_snoc snoc_eq_iff_butlast)
  from w x2 have w2: "walk A k (es @ [j]) j"
    by (metis walk_append last_ConsR last_snoc snoc_eq_iff_butlast append_assoc)
  have i1: "set as \<subseteq> {0..<k}"
  proof
    fix x assume "x \<in> set as"
    with ab int have "x < Suc k" "x \<noteq> k" by auto
    then show "x \<in> {0..<k}" by simp
  qed
  have es_sub: "set es \<subseteq> set bs" using ce by (cases cs) auto
  have i2: "set es \<subseteq> {0..<k}"
  proof
    fix x assume x: "x \<in> set es"
    with es_sub ab int have "x < Suc k" by auto
    moreover from x ce have "x \<noteq> k" by auto
    ultimately show "x \<in> {0..<k}" by simp
  qed
  have len: "length es \<le> length bs" using ce by (cases cs) auto
  from x1 have "set xs = set (as @ [k]) \<union> set (bs @ [j])" by (metis set_append)
  then have s1: "set (as @ [k]) \<subseteq> set xs" by blast
  from x2 have "set xs = set (as @ cs @ [k]) \<union> set (es @ [j])" by (metis set_append)
  then have s2: "set (es @ [j]) \<subseteq> set xs" by blast
  from x1 have "length xs = length (as @ [k]) + length (bs @ [j])" by (metis length_append)
  with len have l: "length (as @ [k]) + length (es @ [j]) \<le> length xs" by simp
  show ?thesis
    using w1 w2 i1 i2 s1 s2 l by (intro exI[of _ "as @ [k]"] exI[of _ "es @ [j]"]) simp
qed

lemma mat_update_nth:
  assumes "length d = n" "\<forall>i \<in> {0..<n}. length (d ! i) = n" "i < n" "j < n" "a < n" "b < n"
  shows "d[i := (d ! i)[j := v]] ! a ! b = (if a = i \<and> b = j then v else d ! a ! b)"
  using assms by (auto simp: nth_list_update)

lemma relax_shape:
  assumes "fw_shape n s" "i < n" "j < n"
  shows "fw_shape n (fw_relax k i j s)"
  using assms by (cases s) (auto simp: fw_shape_def fw_relax_def nth_list_update)

lemma relax_D:
  assumes "fw_shape n s" "i < n" "j < n" "a < n" "b < n"
  shows "fst (fw_relax k i j s) ! a ! b =
           (if a = i \<and> b = j \<and> fst s ! i ! k + fst s ! k ! j < fst s ! i ! j
            then fst s ! i ! k + fst s ! k ! j else fst s ! a ! b)"
  using assms by (cases s) (auto simp: fw_shape_def fw_relax_def nth_list_update)

lemma relax_N:
  assumes "fw_shape n s" "i < n" "j < n" "a < n" "b < n"
  shows "snd (fw_relax k i j s) ! a ! b =
           (if a = i \<and> b = j \<and> fst s ! i ! k + fst s ! k ! j < fst s ! i ! j
            then snd s ! i ! k else snd s ! a ! b)"
  using assms by (cases s) (auto simp: fw_shape_def fw_relax_def nth_list_update)

lemma relax_le:
  assumes "fw_shape n s" "i < n" "j < n" "a < n" "b < n"
  shows "fst (fw_relax k i j s) ! a ! b \<le> fst s ! a ! b"
  using relax_D[OF assms, of k] by (auto simp: less_imp_le)

lemma relax_tri:
  assumes "fw_shape n s" "i < n" "j < n"
  shows "fst (fw_relax k i j s) ! i ! j \<le> fst s ! i ! k + fst s ! k ! j"
  using relax_D[OF assms assms(2,3), of k] by (auto simp: not_less)

lemma relax_sound:
  assumes sh: "fw_shape n s" and so: "fw_sound A n s" and b: "k < n" "i < n" "j < n"
  shows "fw_sound A n (fw_relax k i j s)"
  unfolding fw_sound_def
proof (intro ballI)
  fix a b assume "a \<in> {0..<n}" "b \<in> {0..<n}"
  then have ab: "a < n" "b < n" by simp_all
  let ?s = "fw_relax k i j s"
  let ?upd = "a = i \<and> b = j \<and> fst s ! i ! k + fst s ! k ! j < fst s ! i ! j"
  have D: "fst ?s ! a ! b = (if ?upd then fst s ! i ! k + fst s ! k ! j else fst s ! a ! b)"
    by (rule relax_D[OF sh b(2,3) ab])
  have N: "snd ?s ! a ! b = (if ?upd then snd s ! i ! k else snd s ! a ! b)"
    by (rule relax_N[OF sh b(2,3) ab])
  have old: "(a = b \<longrightarrow> fst s ! a ! b = 0) \<and>
      (a \<noteq> b \<longrightarrow> fst s ! a ! b \<noteq> \<infinity> \<longrightarrow>
         (\<exists>xs. walk A a xs b \<and> set xs \<subseteq> {0..<n} \<and> fst s ! a ! b = enat (length xs)
               \<and> snd s ! a ! b = int (hd xs)))"
    using so ab by (simp add: fw_sound_def)
  show "(a = b \<longrightarrow> fst ?s ! a ! b = 0) \<and>
      (a \<noteq> b \<longrightarrow> fst ?s ! a ! b \<noteq> \<infinity> \<longrightarrow>
         (\<exists>xs. walk A a xs b \<and> set xs \<subseteq> {0..<n} \<and> fst ?s ! a ! b = enat (length xs)
               \<and> snd ?s ! a ! b = int (hd xs)))"
  proof (cases ?upd)
    case False
    with D N have "fst ?s ! a ! b = fst s ! a ! b" "snd ?s ! a ! b = snd s ! a ! b" by simp_all
    then show ?thesis using old by (simp only:)
  next
    case True
    then have ai: "a = i" and bj: "b = j"
      and lt: "fst s ! i ! k + fst s ! k ! j < fst s ! i ! j" by simp_all
    have dii: "fst s ! i ! i = 0" and djj: "fst s ! j ! j = 0" and dkk: "fst s ! k ! k = 0"
      using so b by (simp_all add: fw_sound_def)
    have fin: "fst s ! i ! k \<noteq> \<infinity>" "fst s ! k ! j \<noteq> \<infinity>"
      using lt by (cases "fst s ! i ! k"; cases "fst s ! k ! j"; simp)+
    have ij: "i \<noteq> j" using lt dii by auto
    have ik: "i \<noteq> k" using lt dkk by auto
    have kj: "k \<noteq> j" using lt dkk by auto
    from so b ik fin obtain xs where xs: "walk A i xs k" "set xs \<subseteq> {0..<n}"
      "fst s ! i ! k = enat (length xs)" "snd s ! i ! k = int (hd xs)"
      unfolding fw_sound_def by (metis atLeastLessThan_iff zero_le)
    from so b kj fin obtain ys where ys: "walk A k ys j" "set ys \<subseteq> {0..<n}"
      "fst s ! k ! j = enat (length ys)"
      unfolding fw_sound_def by (metis atLeastLessThan_iff zero_le)
    from xs(1) ik have ne: "xs \<noteq> []" by auto
    then have lk: "last (i # xs) = k" using walk_last[OF xs(1)] by simp
    have w: "walk A i (xs @ ys) j" using xs(1) ys(1) lk by (simp add: walk_append)
    have "fst ?s ! a ! b = enat (length (xs @ ys))" using D True xs(3) ys(3) by simp
    moreover have "snd ?s ! a ! b = int (hd (xs @ ys))" using N True xs(4) ne by simp
    moreover have "set (xs @ ys) \<subseteq> {0..<n}" using xs(2) ys(2) by simp
    ultimately show ?thesis using w ai bj ij by blast
  qed
qed

lemma relax_lb:
  assumes sh: "fw_shape n s" and lb: "fw_lb A n m s" and b: "i < n" "j < n"
  shows "fw_lb A n m (fw_relax k i j s)"
  unfolding fw_lb_def
proof (intro ballI allI impI)
  fix a b xs assume ab: "a \<in> {0..<n}" "b \<in> {0..<n}"
    and w: "walk A a xs b \<and> set xs \<subseteq> {0..<n} \<and> set (butlast xs) \<subseteq> {0..<m}"
  from lb ab w have "fst s ! a ! b \<le> enat (length xs)" unfolding fw_lb_def by blast
  moreover have "fst (fw_relax k i j s) ! a ! b \<le> fst s ! a ! b"
    using relax_le[OF sh b, of a b k] ab by simp
  ultimately show "fst (fw_relax k i j s) ! a ! b \<le> enat (length xs)" by (rule order_trans[rotated])
qed

lemma relax_done_pres:
  assumes sh: "fw_shape n s" and dn: "fw_done A n k a b s" and b: "i < n" "j < n" "a < n" "b < n"
  shows "fw_done A n k a b (fw_relax k' i j s)"
  unfolding fw_done_def
proof (intro allI impI)
  fix xs assume w: "walk A a xs b \<and> set xs \<subseteq> {0..<n} \<and> set (butlast xs) \<subseteq> {0..<Suc k}"
  from dn w have "fst s ! a ! b \<le> enat (length xs)" unfolding fw_done_def by blast
  moreover have "fst (fw_relax k' i j s) ! a ! b \<le> fst s ! a ! b"
    by (rule relax_le[OF sh b])
  ultimately show "fst (fw_relax k' i j s) ! a ! b \<le> enat (length xs)" by (rule order_trans[rotated])
qed

lemma relax_done:
  assumes sh: "fw_shape n s" and lb: "fw_lb A n k s" and b: "k < n" "i < n" "j < n"
  shows "fw_done A n k i j (fw_relax k i j s)"
  unfolding fw_done_def
proof (intro allI impI)
  fix xs assume w: "walk A i xs j \<and> set xs \<subseteq> {0..<n} \<and> set (butlast xs) \<subseteq> {0..<Suc k}"
  let ?s = "fw_relax k i j s"
  show "fst ?s ! i ! j \<le> enat (length xs)"
  proof (cases "k \<in> set (butlast xs)")
    case False
    have "set (butlast xs) \<subseteq> {0..<k}"
    proof
      fix x assume "x \<in> set (butlast xs)"
      with w False have "x < Suc k" "x \<noteq> k" by auto
      then show "x \<in> {0..<k}" by simp
    qed
    with lb w b have "fst s ! i ! j \<le> enat (length xs)" unfolding fw_lb_def by simp
    moreover have "fst ?s ! i ! j \<le> fst s ! i ! j" by (rule relax_le[OF sh b(2,3) b(2,3)])
    ultimately show ?thesis by (rule order_trans[rotated])
  next
    case True
    from walk_split[OF _ True, of A i j] w obtain ys zs where
      yz: "walk A i ys k" "walk A k zs j" "set (butlast ys) \<subseteq> {0..<k}"
          "set (butlast zs) \<subseteq> {0..<k}" "set ys \<subseteq> set xs" "set zs \<subseteq> set xs"
          "length ys + length zs \<le> length xs"
      by blast
    from yz(5,6) w have n: "set ys \<subseteq> {0..<n}" "set zs \<subseteq> {0..<n}" by auto
    from lb yz(1,3) n(1) b have 1: "fst s ! i ! k \<le> enat (length ys)"
      unfolding fw_lb_def by simp
    from lb yz(2,4) n(2) b have 2: "fst s ! k ! j \<le> enat (length zs)"
      unfolding fw_lb_def by simp
    have "fst ?s ! i ! j \<le> fst s ! i ! k + fst s ! k ! j" by (rule relax_tri[OF sh b(2,3)])
    also have "\<dots> \<le> enat (length ys) + enat (length zs)" using 1 2 by (rule add_mono)
    also have "\<dots> \<le> enat (length xs)" using yz(7) by simp
    finally show ?thesis .
  qed
qed

lemma fold_establish:
  assumes I: "\<And>x s. x \<in> set xs \<Longrightarrow> I s \<Longrightarrow> I (f x s)"
    and est: "\<And>x s. x \<in> set xs \<Longrightarrow> I s \<Longrightarrow> Q x (f x s)"
    and pres: "\<And>x y s. x \<in> set xs \<Longrightarrow> y \<in> set xs \<Longrightarrow> I s \<Longrightarrow> Q x s \<Longrightarrow> Q x (f y s)"
    and init: "I s"
  shows "I (fold f xs s) \<and> (\<forall>x \<in> set xs. Q x (fold f xs s))"
  using I est pres
proof (induction xs rule: rev_induct)
  case Nil
  then show ?case using init by simp
next
  case (snoc x xs)
  have IH: "I (fold f xs s) \<and> (\<forall>x \<in> set xs. Q x (fold f xs s))"
    by (rule snoc.IH) (use snoc.prems in auto)
  show ?case using IH snoc.prems by auto
qed

lemma relax_inv:
  assumes "fw_inv A n k s" "k' < n" "i < n" "j < n"
  shows "fw_inv A n k (fw_relax k' i j s)"
  using assms relax_shape relax_sound relax_lb unfolding fw_inv_def by blast

lemma row_inv:
  assumes inv: "fw_inv A n k s" and b: "k < n" "i < n"
  shows "fw_inv A n k (fold (fw_relax k i) [0..<n] s)
       \<and> (\<forall>j \<in> set [0..<n]. fw_done A n k i j (fold (fw_relax k i) [0..<n] s))"
proof (rule fold_establish[where I = "fw_inv A n k" and Q = "\<lambda>j. fw_done A n k i j"])
  show "fw_inv A n k s" by (rule inv)
next
  fix x s assume "x \<in> set [0..<n]" "fw_inv A n k s"
  then show "fw_inv A n k (fw_relax k i x s)" using relax_inv b by simp
next
  fix x s assume "x \<in> set [0..<n]" "fw_inv A n k s"
  then show "fw_done A n k i x (fw_relax k i x s)"
    using relax_done b unfolding fw_inv_def by simp
next
  fix x y s assume "x \<in> set [0..<n]" "y \<in> set [0..<n]" "fw_inv A n k s" "fw_done A n k i x s"
  then show "fw_done A n k i x (fw_relax k i y s)"
    using relax_done_pres b unfolding fw_inv_def by simp
qed

lemma row_done_pres:
  assumes "fw_inv A n k s" "fw_done A n k a b s" "k < n" "i < n" "a < n" "b < n"
    "set js \<subseteq> {0..<n}"
  shows "fw_inv A n k (fold (fw_relax k i) js s) \<and> fw_done A n k a b (fold (fw_relax k i) js s)"
  using assms
proof (induction js arbitrary: s)
  case Nil
  then show ?case by simp
next
  case (Cons j js)
  have "fw_inv A n k (fw_relax k i j s)" using Cons.prems relax_inv by simp
  moreover have "fw_done A n k a b (fw_relax k i j s)"
    using Cons.prems relax_done_pres unfolding fw_inv_def by simp
  ultimately show ?case using Cons.IH Cons.prems by simp
qed

lemma round_inv:
  assumes inv: "fw_inv A n k s" and b: "k < n"
  shows "fw_inv A n (Suc k) (fold (\<lambda>i. fold (fw_relax k i) [0..<n]) [0..<n] s)"
proof -
  let ?f = "\<lambda>i. fold (fw_relax k i) [0..<n]"
  have "fw_inv A n k (fold ?f [0..<n] s)
       \<and> (\<forall>i \<in> set [0..<n]. (\<forall>j \<in> {0..<n}. fw_done A n k i j (fold ?f [0..<n] s)))"
  proof (rule fold_establish[where I = "fw_inv A n k"
          and Q = "\<lambda>i s. \<forall>j \<in> {0..<n}. fw_done A n k i j s"])
    show "fw_inv A n k s" by (rule inv)
  next
    fix x s assume "x \<in> set [0..<n]" "fw_inv A n k s"
    then show "fw_inv A n k (?f x s)" using row_inv b by simp
  next
    fix x s assume "x \<in> set [0..<n]" "fw_inv A n k s"
    then show "\<forall>j \<in> {0..<n}. fw_done A n k x j (?f x s)" using row_inv b by simp
  next
    fix x y s assume a: "x \<in> set [0..<n]" "y \<in> set [0..<n]" "fw_inv A n k s"
      "\<forall>j \<in> {0..<n}. fw_done A n k x j s"
    show "\<forall>j \<in> {0..<n}. fw_done A n k x j (?f y s)"
    proof
      fix j assume "j \<in> {0..<n}"
      with a show "fw_done A n k x j (?f y s)"
        using row_done_pres[of A n k s x j y "[0..<n]"] b by simp
    qed
  qed
  then have inv': "fw_inv A n k (fold ?f [0..<n] s)"
    and dn: "\<And>i j. i < n \<Longrightarrow> j < n \<Longrightarrow> fw_done A n k i j (fold ?f [0..<n] s)" by simp_all
  have "fw_lb A n (Suc k) (fold ?f [0..<n] s)"
    unfolding fw_lb_def using dn unfolding fw_done_def by simp
  with inv' show ?thesis unfolding fw_inv_def by simp
qed

lemma init_inv:
  assumes A: "length A = n" "\<forall>i \<in> {0..<n}. length (A ! i) = n"
  shows "fw_inv A n 0 (fw_init n A)"
proof -
  have D: "fst (fw_init n A) ! i ! j = fst (fw_init_entry A i j)" if "i < n" "j < n" for i j
    using that by (simp add: fw_init_def)
  have N: "snd (fw_init n A) ! i ! j = snd (fw_init_entry A i j)" if "i < n" "j < n" for i j
    using that by (simp add: fw_init_def)
  have sh: "fw_shape n (fw_init n A)" by (simp add: fw_shape_def fw_init_def)
  have so: "fw_sound A n (fw_init n A)"
    unfolding fw_sound_def
  proof (intro ballI conjI impI)
    fix i j assume ij: "i \<in> {0..<n}" "j \<in> {0..<n}"
    { assume "i = j"
      then show "fst (fw_init n A) ! i ! j = 0" using ij D by (simp add: fw_init_entry_def) }
    { assume ne: "i \<noteq> j" and fin: "fst (fw_init n A) ! i ! j \<noteq> \<infinity>"
      from fin ne ij D have e: "A ! i ! j = 1" by (auto simp: fw_init_entry_def split: if_splits)
      have "walk A i [j] j \<and> set [j] \<subseteq> {0..<n} \<and> fst (fw_init n A) ! i ! j = enat (length [j])
            \<and> snd (fw_init n A) ! i ! j = int (hd [j])"
        using e ne ij D N by (simp add: fw_init_entry_def one_enat_def)
      then show "\<exists>xs. walk A i xs j \<and> set xs \<subseteq> {0..<n} \<and> fst (fw_init n A) ! i ! j = enat (length xs)
            \<and> snd (fw_init n A) ! i ! j = int (hd xs)" by blast }
  qed
  have lb: "fw_lb A n 0 (fw_init n A)"
    unfolding fw_lb_def
  proof (intro ballI allI impI)
    fix i j xs assume ij: "i \<in> {0..<n}" "j \<in> {0..<n}"
      and w: "walk A i xs j \<and> set xs \<subseteq> {0..<n} \<and> set (butlast xs) \<subseteq> {0..<0}"
    then have bl: "butlast xs = []" by simp
    show "fst (fw_init n A) ! i ! j \<le> enat (length xs)"
    proof (cases xs)
      case Nil
      with w have "i = j" by simp
      then show ?thesis using ij D by (simp add: fw_init_entry_def)
    next
      case (Cons x ys)
      with bl have ys: "ys = []" by (simp split: if_splits)
      with w Cons have "A ! i ! j = 1" by auto
      then show ?thesis using ij D Cons ys by (simp add: fw_init_entry_def one_enat_def)
    qed
  qed
  show ?thesis using sh so lb by (simp add: fw_inv_def)
qed

lemma loops_inv:
  assumes A: "length A = n" "\<forall>i \<in> {0..<n}. length (A ! i) = n"
  shows "fw_inv A n n (fw_loops n (fw_init n A))"
proof -
  let ?r = "\<lambda>k. fold (\<lambda>i. fold (fw_relax k i) [0..<n]) [0..<n]"
  have "m \<le> n \<Longrightarrow> fw_inv A n m (fold ?r [0..<m] (fw_init n A))" for m
  proof (induction m)
    case 0
    then show ?case using init_inv[OF A] by simp
  next
    case (Suc m)
    then have "fw_inv A n m (fold ?r [0..<m] (fw_init n A))" and "m < n" by simp_all
    from round_inv[OF this] show ?case by simp
  qed
  then show ?thesis by (simp add: fw_loops_def)
qed

lemma fw_lbD:
  assumes "fw_lb A n k s" "i < n" "j < n" "walk A i xs j" "set xs \<subseteq> {0..<n}"
    "set (butlast xs) \<subseteq> {0..<k}"
  shows "fst s ! i ! j \<le> enat (length xs)"
proof -
  from assms(2,3) have "i \<in> {0..<n}" "j \<in> {0..<n}" by simp_all
  with assms(1,4,5,6) show ?thesis unfolding fw_lb_def by blast
qed

lemma fw_soundD:
  assumes "fw_sound A n s" "i < n" "j < n" "i \<noteq> j" "fst s ! i ! j \<noteq> \<infinity>"
  shows "\<exists>xs. walk A i xs j \<and> set xs \<subseteq> {0..<n} \<and> fst s ! i ! j = enat (length xs)
               \<and> snd s ! i ! j = int (hd xs)"
proof -
  from assms(2,3) have "i \<in> {0..<n}" "j \<in> {0..<n}" by simp_all
  with assms(1,4,5) show ?thesis unfolding fw_sound_def by blast
qed

lemma fw_next_hop:
  assumes inv: "fw_inv A n n s" and b: "i < n" "j < n" "i \<noteq> j"
    and d: "fst s ! i ! j = enat L"
  shows "\<exists>m. m < n \<and> snd s ! i ! j = int m \<and> A ! i ! m = 1 \<and> fst s ! m ! j = enat (L - 1) \<and> 1 \<le> L"
proof -
  from inv have so: "fw_sound A n s" and lb: "fw_lb A n n s" by (simp_all add: fw_inv_def)
  from so b d obtain xs where xs: "walk A i xs j" "set xs \<subseteq> {0..<n}"
    "fst s ! i ! j = enat (length xs)" "snd s ! i ! j = int (hd xs)"
    unfolding fw_sound_def by (metis atLeastLessThan_iff zero_le enat.distinct(2))
  from xs(1) b(3) obtain m ys where c: "xs = m # ys" by (cases xs) auto
  from xs c have m: "m < n" "A ! i ! m = 1" "walk A m ys j" "set ys \<subseteq> {0..<n}" by simp_all
  from xs(3) d c have L: "L = Suc (length ys)" by simp
  have bl: "set (butlast zs) \<subseteq> {0..<n}" if "set zs \<subseteq> {0..<n}" for zs :: "nat list"
    using that by (meson in_set_butlastD subsetD subsetI)
  from lb m b bl[OF m(4)] have up: "fst s ! m ! j \<le> enat (length ys)"
    unfolding fw_lb_def by simp
  have "fst s ! m ! j = enat (length ys)"
  proof (cases "m = j")
    case True
    with so b have "fst s ! m ! j = 0" by (simp add: fw_sound_def)
    moreover have "length ys = 0"
    proof -
      have "walk A i [j] j" "set [j] \<subseteq> {0..<n}" "set (butlast [j]) \<subseteq> {0..<n}"
        using m True b by simp_all
      from fw_lbD[OF lb b(1,2) this] have "fst s ! i ! j \<le> enat (length [j])" .
      with d L show ?thesis by simp
    qed
    ultimately show ?thesis by (simp add: zero_enat_def)
  next
    case False
    from up obtain L' where L': "fst s ! m ! j = enat L'" by (cases "fst s ! m ! j") auto
    with so m b False obtain zs where zs: "walk A m zs j" "set zs \<subseteq> {0..<n}"
      "fst s ! m ! j = enat (length zs)"
      unfolding fw_sound_def by (metis atLeastLessThan_iff zero_le enat.distinct(2))
    have "walk A i (m # zs) j" "set (m # zs) \<subseteq> {0..<n}" "set (butlast (m # zs)) \<subseteq> {0..<n}"
      using m zs bl[of "m # zs"] by simp_all
    from fw_lbD[OF lb b(1,2) this] have "fst s ! i ! j \<le> enat (length (m # zs))" .
    with d L zs(3) up show ?thesis by simp
  qed
  with m L xs(4) c show ?thesis by auto
qed

lemma fw_inf_iff:
  assumes inv: "fw_inv A n n s" and b: "i < n" "j < n"
  shows "fst s ! i ! j = \<infinity> \<longleftrightarrow> \<not> (\<exists>xs. walk A i xs j \<and> set xs \<subseteq> {0..<n})"
proof
  assume inf: "fst s ! i ! j = \<infinity>"
  show "\<not> (\<exists>xs. walk A i xs j \<and> set xs \<subseteq> {0..<n})"
  proof
    assume "\<exists>xs. walk A i xs j \<and> set xs \<subseteq> {0..<n}"
    then obtain xs where xs: "walk A i xs j" "set xs \<subseteq> {0..<n}" by blast
    then have "set (butlast xs) \<subseteq> {0..<n}" by (meson in_set_butlastD subsetD subsetI)
    with inv xs b have "fst s ! i ! j \<le> enat (length xs)" unfolding fw_inv_def fw_lb_def by simp
    with inf show False by simp
  qed
next
  assume nw: "\<not> (\<exists>xs. walk A i xs j \<and> set xs \<subseteq> {0..<n})"
  show "fst s ! i ! j = \<infinity>"
  proof (rule ccontr)
    assume fin: "fst s ! i ! j \<noteq> \<infinity>"
    have "i \<noteq> j"
    proof
      assume "i = j"
      then have "walk A i [] j \<and> set [] \<subseteq> {0..<n}" by simp
      with nw show False by blast
    qed
    moreover from inv have "fw_sound A n s" by (simp add: fw_inv_def)
    ultimately show False using fw_soundD[of A n s i j] b fin nw by blast
  qed
qed

lemma py_get_nat: "i < length xs \<Longrightarrow> py_get xs (int i) = Inr (xs ! i)"
  by (simp add: py_get_def py_index_def)

lemma py_get2_nat:
  "i < length m \<Longrightarrow> j < length (m ! i) \<Longrightarrow> py_get2 m (int i) (int j) = Inr (m ! i ! j)"
  by (simp add: py_get2_def py_get_nat)

lemma path_loop_result:
  assumes inv: "fw_inv A n n (d, nx)" and e: "e < n"
  shows "st < n \<Longrightarrow> d ! st ! e = enat L \<Longrightarrow>
         \<exists>rest. path_loop nx (int e) (int st) path = Some (Inr (path @ map int rest))
              \<and> length rest = L \<and> walk A st rest e \<and> set rest \<subseteq> {0..<n}"
proof (induction L arbitrary: st path)
  case 0
  have "st = e"
  proof (rule ccontr)
    assume "st \<noteq> e"
    from fw_next_hop[OF inv 0(1) e this, of 0] 0(2) show False by simp
  qed
  then show ?case by (subst path_loop.simps) simp
next
  case (Suc L)
  have ne: "st \<noteq> e"
  proof
    assume "st = e"
    with inv e have "d ! st ! e = 0" by (simp add: fw_inv_def fw_sound_def)
    with Suc.prems(2) show False by (simp add: zero_enat_def)
  qed
  from fw_next_hop[OF inv Suc.prems(1) e ne, of "Suc L"] Suc.prems(2)
  obtain m where m: "m < n" "nx ! st ! e = int m" "A ! st ! m = 1" "d ! m ! e = enat L" by auto
  from inv have sh: "length nx = n" "length (nx ! st) = n"
    using Suc.prems(1) by (simp_all add: fw_inv_def fw_shape_def)
  have g: "py_get2 nx (int st) (int e) = Inr (int m)"
    using py_get2_nat[of st nx e] sh Suc.prems(1) e m(2) by simp
  from Suc.IH[OF m(1) m(4), of "path @ [int m]"] obtain rest where
    r: "path_loop nx (int e) (int m) (path @ [int m]) = Some (Inr ((path @ [int m]) @ map int rest))"
       "length rest = L" "walk A m rest e" "set rest \<subseteq> {0..<n}" by blast
  have "path_loop nx (int e) (int st) path = Some (Inr (path @ map int (m # rest)))"
    using ne g r(1) by (subst path_loop.simps) simp
  moreover have "length (m # rest) = Suc L" "walk A st (m # rest) e" "set (m # rest) \<subseteq> {0..<n}"
    using r m by simp_all
  ultimately show ?case by blast
qed

lemma py_set_nat: "i < length xs \<Longrightarrow> py_set xs (int i) v = Inr (xs[i := v])"
  by (simp add: py_set_def py_index_def)

lemma perm_inv_in_range: "perm_inv Q m \<Longrightarrow> in_range Q m"
  unfolding perm_inv_def in_range_def
  by (auto simp: in_set_conv_nth) (metis atLeastLessThan_iff of_nat_0_le_iff of_nat_less_iff zero_le)+

lemma swap_step_nat:
  assumes "length (l_to_p r) = Q" "length (p_to_l r) = Q" "q < Q" "u < Q" "v < Q"
    "p_to_l r ! v = int w" "w < Q"
  shows "swap_step r (int q) (int u) (int v) =
           Inr (int w, r\<lparr>l_to_p := (l_to_p r)[q := int v, w := int u],
                         p_to_l := (p_to_l r)[v := int q, u := int w]\<rparr>)"
  using assms by (simp add: swap_step_def py_get_nat py_set_nat)

lemma in_range_nth:
  assumes "in_range Q r" "x < Q"
  shows "\<exists>y < Q. l_to_p r ! x = int y" "\<exists>y < Q. p_to_l r ! x = int y"
proof -
  from assms have "0 \<le> l_to_p r ! x \<and> l_to_p r ! x < int Q" "0 \<le> p_to_l r ! x \<and> p_to_l r ! x < int Q"
    by (simp_all add: in_range_def)
  then show "\<exists>y < Q. l_to_p r ! x = int y" "\<exists>y < Q. p_to_l r ! x = int y"
    by (metis nat_less_iff int_nat_eq)+
qed

lemma swap_step_in_range:
  assumes ir: "in_range Q r" and b: "q < Q" "u < Q" "v < Q"
  shows "\<exists>sq r'. swap_step r (int q) (int u) (int v) = Inr (sq, r') \<and> in_range Q r'"
proof -
  from in_range_nth(2)[OF ir b(3)] obtain w where w: "w < Q" "p_to_l r ! v = int w" by blast
  from ir have len: "length (l_to_p r) = Q" "length (p_to_l r) = Q" by (simp_all add: in_range_def)
  note st = swap_step_nat[OF len b w(2) w(1)]
  have "in_range Q (r\<lparr>l_to_p := (l_to_p r)[q := int v, w := int u],
                         p_to_l := (p_to_l r)[v := int q, u := int w]\<rparr>)"
    using ir b w unfolding in_range_def
    by (auto dest!: set_update_subset_insert[THEN subsetD])
  with st show ?thesis by blast
qed

lemma move_through_path_in_range:
  assumes "in_range Q r" "q < Q" "u < Q" "set path \<subseteq> {0..<Q}"
  shows "\<exists>sl r'. move_through_path r (int q) (int u) (map int path) = Inr (sl, length path, r')
            \<and> length sl = length path \<and> in_range Q r'"
  using assms
proof (induction path arbitrary: r u)
  case Nil
  then show ?case by simp
next
  case (Cons v path)
  then have v: "v < Q" by simp
  from swap_step_in_range[OF Cons.prems(1,2,3) v] obtain sq r1 where
    s: "swap_step r (int q) (int u) (int v) = Inr (sq, r1)" "in_range Q r1" by blast
  from Cons.IH[OF s(2) Cons.prems(2) v] Cons.prems(4) obtain sl r2 where
    m: "move_through_path r1 (int q) (int v) (map int path) = Inr (sl, length path, r2)"
       "length sl = length path" "in_range Q r2" by auto
  show ?case using s m by simp
qed

lemma py_slice_length:
  "length (py_slice xs b e) = min (py_clamp (length xs) e - py_clamp (length xs) b)
                                  (length xs - py_clamp (length xs) b)"
  by (simp add: py_slice_def Let_def)

lemma py_slice_set: "set (py_slice xs b e) \<subseteq> set xs"
  unfolding py_slice_def Let_def by (meson order_trans set_drop_subset set_take_subset)

lemma strategy_cases:
  "swap_strategy_by_lookahead r i c t pick \<in> {c, t, -1}"
proof -
  have "pick mod 3 = 0 \<or> pick mod 3 = 1 \<or> pick mod 3 = 2" by arith
  then have "[c, t, -1] ! (pick mod 3) \<in> {c, t, -1}" by auto
  then show ?thesis by (auto simp: swap_strategy_by_lookahead_def Let_def)
qed

lemma py_slice_nat_length:
  "b \<le> e \<Longrightarrow> e \<le> length xs \<Longrightarrow> length (py_slice xs (int b) (int e)) = e - b"
  by (simp add: py_slice_length py_clamp_def)

lemma py_slice_neg1_length:
  "b < length xs \<Longrightarrow> length (py_slice xs (int b) (-1)) = length xs - 1 - b"
  by (simp add: py_slice_length py_clamp_def)

lemma split_paths_length:
  assumes "length sp = Suc k" "1 \<le> k"
  shows "\<exists>cp tp. split_paths sp = (cp, tp) \<and> length cp + length tp = k - 1
            \<and> set cp \<subseteq> set sp \<and> set tp \<subseteq> set sp"
proof -
  define ce where "ce = (if Suc k mod 2 = 0 then Suc k div 2 else (Suc k + 1) div 2)"
  define cp0 where "cp0 = py_slice sp (int 0) (int ce)"
  define tp0 where "tp0 = py_slice sp (int ce) (int (Suc k))"
  have ce: "1 \<le> ce" "ce \<le> k" using assms(2) unfolding ce_def by (auto split: if_splits)
  have l0: "length cp0 = ce" unfolding cp0_def using ce assms(1) by (subst py_slice_nat_length) simp_all
  have l1: "length tp0 = Suc k - ce" unfolding tp0_def using ce assms(1)
    by (subst py_slice_nat_length) simp_all
  have "length (py_slice cp0 (int 1) (int (length cp0))) = length cp0 - 1"
    using ce l0 by (subst py_slice_nat_length) simp_all
  then have l2: "length (py_slice cp0 1 (int (length cp0))) = ce - 1" using l0 by simp
  have "length (py_slice tp0 (int 0) (-1)) = length tp0 - 1 - 0"
    using ce l1 by (subst py_slice_neg1_length) simp_all
  then have l3: "length (py_slice tp0 0 (-1)) = Suc k - ce - 1" using l1 by simp
  have s2: "set (py_slice cp0 1 (int (length cp0))) \<subseteq> set sp"
    using py_slice_set[of cp0] py_slice_set[of sp] unfolding cp0_def by blast
  have s3: "set (py_slice tp0 0 (-1)) \<subseteq> set sp"
    using py_slice_set[of tp0] py_slice_set[of sp] unfolding tp0_def by blast
  have eq: "split_paths sp = (py_slice cp0 1 (int (length cp0)), py_slice tp0 0 (-1))"
    using assms(1) by (simp add: split_paths_def Let_def cp0_def tp0_def ce_def)
  have "ce - 1 + (Suc k - ce - 1) = k - 1" using ce by linarith
  with l2 l3 have "length (py_slice cp0 1 (int (length cp0))) + length (py_slice tp0 0 (-1)) = k - 1"
    by simp
  with eq s2 s3 show ?thesis by blast
qed

lemma choose_paths_length:
  assumes "length sp = Suc k" "1 \<le> k" "st \<in> {c, t, -1}"
  shows "\<exists>cp tp. choose_paths st c t sp = Some (cp, tp) \<and> length cp + length tp = k - 1
            \<and> set cp \<subseteq> set sp \<and> set tp \<subseteq> set sp"
proof -
  have "length (py_slice sp (int 1) (-1)) = length sp - 1 - 1"
    using assms(1,2) by (subst py_slice_neg1_length) simp_all
  then have inner: "length (py_slice sp 1 (-1)) = k - 1" using assms(1) by simp
  from split_paths_length[OF assms(1,2)] obtain scp stp where
    sp: "split_paths sp = (scp, stp)" "length scp + length stp = k - 1"
    "set scp \<subseteq> set sp" "set stp \<subseteq> set sp" by blast
  show ?thesis
    using assms(3) inner sp py_slice_set[of sp 1 "-1"]
    by (auto simp: choose_paths_def Let_def)
qed

lemma py_index_Some: "py_index xs i = Some j \<Longrightarrow> j < length xs"
  by (auto simp: py_index_def Let_def split: if_splits)

lemma py_set_shape: "py_set xs i v = Inr ys \<Longrightarrow> length ys = length xs"
  by (auto simp: py_set_def split: option.splits)

lemma py_set2_shape:
  assumes "py_set2 m i j v = Inr m'"
  shows "length m' = length m \<and> (\<forall>a < length m. length (m' ! a) = length (m ! a))"
proof -
  from assms obtain a b where a: "py_index m i = Some a" "py_index (m ! a) j = Some b"
    "m' = m[a := (m ! a)[b := v]]"
    by (auto simp: py_set2_def py_get_def py_set_def split: option.splits sum.splits)
  from a(1) have "a < length m" by (rule py_index_Some)
  with a(3) show ?thesis by (auto simp: nth_list_update)
qed

lemma add_edge_wf:
  assumes "add_edge g u v = Inr g'" "wf_adj g"
  shows "wf_adj g' \<and> num_nodes g' = num_nodes g"
proof -
  from assms(1) obtain m1 m2 where m: "py_set2 (adj_matrix g) u v 1 = Inr m1"
    "py_set2 m1 v u 1 = Inr m2" "g' = g\<lparr>adj_matrix := m2\<rparr>"
    by (auto simp: add_edge_def ebind_eq_Inr)
  from py_set2_shape[OF m(1)] py_set2_shape[OF m(2)] assms(2) m(3)
  show ?thesis by (simp add: wf_adj_def)
qed

lemma add_edges_wf:
  "add_edges g es = Inr g' \<Longrightarrow> wf_adj g \<Longrightarrow> wf_adj g' \<and> num_nodes g' = num_nodes g"
proof (induction es arbitrary: g)
  case Nil
  then show ?case by simp
next
  case (Cons e es)
  obtain s d where e: "e = (s, d)" by (cases e) auto
  from Cons.prems(1) e obtain g1 where g1: "add_edge g s d = Inr g1" "add_edges g1 es = Inr g'"
    by (auto simp: ebind_eq_Inr)
  from add_edge_wf[OF g1(1) Cons.prems(2)] Cons.IH[OF g1(2)] show ?case by simp
qed

lemma Router_topology:
  assumes "Router G m cnots la = Inr r"
  shows "\<exists>g. topology r = floyd_warshall g \<and> wf_adj g \<and> num_nodes g = number_of_nodes G
             \<and> l_to_p r = l_to_p m \<and> p_to_l r = p_to_l m \<and> cnots_list r = cnots \<and> lookahead r = la"
proof -
  from assms obtain g where g: "from_nx (UnweightedUndirectedGraph (number_of_nodes G)) G = Inr g"
    and r: "r = \<lparr>l_to_p = l_to_p m, p_to_l = p_to_l m, cnots_list = cnots, lookahead = la,
          topology = floyd_warshall g\<rparr>"
    by (auto simp: Router_def ebind_eq_Inr)
  have "wf_adj (UnweightedUndirectedGraph (number_of_nodes G))"
    by (simp add: wf_adj_def UnweightedUndirectedGraph_def)
  from add_edges_wf[OF g[unfolded from_nx_def] this] r show ?thesis
    by (auto simp: UnweightedUndirectedGraph_def)
qed

lemma floyd_warshall_tables:
  assumes "wf_adj g"
  shows "\<exists>d nx. dist (floyd_warshall g) = Some d \<and> next_node (floyd_warshall g) = Some nx
           \<and> fw_inv (adj_matrix g) (num_nodes g) (num_nodes g) (d, nx)
           \<and> adj_matrix (floyd_warshall g) = adj_matrix g
           \<and> num_nodes (floyd_warshall g) = num_nodes g"
proof -
  obtain d nx where s: "fw_loops (num_nodes g) (fw_init (num_nodes g) (adj_matrix g)) = (d, nx)"
    by (cases "fw_loops (num_nodes g) (fw_init (num_nodes g) (adj_matrix g))") auto
  from assms have "fw_inv (adj_matrix g) (num_nodes g) (num_nodes g) (d, nx)"
    using loops_inv[of "adj_matrix g" "num_nodes g"] s by (simp add: wf_adj_def)
  with s show ?thesis by (simp add: floyd_warshall_def)
qed

lemma are_adjacent_nat:
  assumes "wf_adj g" "u < num_nodes g" "v < num_nodes g"
  shows "are_adjacent (floyd_warshall g) (int u) (int v) = Inr (adj_matrix g ! u ! v = 1)"
proof -
  from assms have "py_get2 (adj_matrix g) (int u) (int v) = Inr (adj_matrix g ! u ! v)"
    by (intro py_get2_nat) (simp_all add: wf_adj_def)
  then show ?thesis using floyd_warshall_tables[OF assms(1)] by (auto simp: are_adjacent_def)
qed

lemma get_shortest_path_inf:
  assumes "wf_adj g" "u < num_nodes g" "v < num_nodes g"
    "dist (floyd_warshall g) = Some d" "d ! u ! v = \<infinity>"
  shows "get_shortest_path (floyd_warshall g) (int u) (int v) = Some (Inr [])"
proof -
  from floyd_warshall_tables[OF assms(1)] assms(4) obtain nx where
    t: "next_node (floyd_warshall g) = Some nx"
       "fw_inv (adj_matrix g) (num_nodes g) (num_nodes g) (d, nx)" by auto
  from t(2) assms(2,3) have "py_get2 d (int u) (int v) = Inr (d ! u ! v)"
    by (intro py_get2_nat) (simp_all add: fw_inv_def fw_shape_def)
  with assms(4,5) t(1) show ?thesis by (simp add: get_shortest_path_def)
qed

lemma get_shortest_path_fin:
  assumes "wf_adj g" "u < num_nodes g" "v < num_nodes g"
    "dist (floyd_warshall g) = Some d" "d ! u ! v = enat k"
  shows "\<exists>rest. get_shortest_path (floyd_warshall g) (int u) (int v)
                  = Some (Inr (int u # map int rest))
              \<and> length rest = k \<and> walk (adj_matrix g) u rest v \<and> set rest \<subseteq> {0..<num_nodes g}"
proof -
  from floyd_warshall_tables[OF assms(1)] assms(4) obtain nx where
    t: "next_node (floyd_warshall g) = Some nx"
       "fw_inv (adj_matrix g) (num_nodes g) (num_nodes g) (d, nx)" by auto
  from t(2) assms(2,3) have "py_get2 d (int u) (int v) = Inr (d ! u ! v)"
    by (intro py_get2_nat) (simp_all add: fw_inv_def fw_shape_def)
  with assms(4,5) t(1) have
    "get_shortest_path (floyd_warshall g) (int u) (int v) = path_loop nx (int v) (int u) [int u]"
    by (simp add: get_shortest_path_def)
  with path_loop_result[OF t(2) assms(3,2,5), of "[int u]"] show ?thesis by auto
qed

lemma perm_inv_l:
  assumes "perm_inv Q r" "q < Q"
  shows "\<exists>u < Q. l_to_p r ! q = int u \<and> p_to_l r ! u = int q"
  using assms unfolding perm_inv_def by (metis atLeastLessThan_iff zero_le)

lemma int_list_nat:
  assumes "set xs \<subseteq> int ` {0..<n}"
  shows "\<exists>ys. xs = map int ys \<and> set ys \<subseteq> {0..<n}"
proof -
  have "map (\<lambda>x. int (nat x)) xs = map (\<lambda>x. x) xs"
    by (rule map_cong[OF refl]) (use assms in auto)
  then have "xs = map int (map nat xs)" by (simp add: comp_def)
  moreover have "set (map nat xs) \<subseteq> {0..<n}" using assms by auto
  ultimately show ?thesis by blast
qed

section \<open>C5: the number of SWAPs emitted for one gate\<close>

text \<open>
  Claim C5. Let the router be built by \<open>Router\<close> on a topology \<open>G\<close>, its placement satisfy
  the permutation invariant, and the two distinct qubits \<open>c\<close>, \<open>t\<close> of a triple sit on
  nodes \<open>u\<close>, \<open>v\<close> that are not adjacent and at a finite distance \<open>k\<close> in the distance
  table. Then \<open>__apply_cnot\<close> returns, with two SWAP lists whose lengths add up to
  \<open>k - 1\<close> (and the count it reports is that sum), whatever the lookahead window and the
  random draw are, that is in each of the three branches.
\<close>

theorem router_emits_k_minus_1_swaps:
  fixes c t u v k :: nat
  assumes R: "Router G m cnots la = Inr r0" and top: "topology r = topology r0"
    and perm: "perm_inv (number_of_nodes G) r"
    and c: "c < number_of_nodes G" and t: "t < number_of_nodes G" and ct: "c \<noteq> t"
    and u: "l_to_p r ! c = int u" and v: "l_to_p r ! t = int v"
    and nadj: "are_adjacent (topology r) (int u) (int v) = Inr False"
    and d: "dist (topology r) = Some d" and k: "d ! u ! v = enat k"
  shows "\<exists>control_swaps target_swaps r'.
           apply_cnot r (int c) (int t) i pick
             = Some (Inr (([control_swaps, target_swaps],
                           length control_swaps + length target_swaps), r'))
         \<and> int (length control_swaps + length target_swaps) = int k - 1 \<and> 2 \<le> k"
proof -
  let ?n = "number_of_nodes G"
  from Router_topology[OF R] top obtain g where
    g: "topology r = floyd_warshall g" "wf_adj g" "num_nodes g = ?n" by auto
  let ?A = "adj_matrix g"
  from perm_inv_l[OF perm c] u obtain un: "u < ?n" and pu: "p_to_l r ! u = int c" by auto
  from perm_inv_l[OF perm t] v obtain vn: "v < ?n" and pv: "p_to_l r ! v = int t" by auto
  have uv: "u \<noteq> v" using pu pv ct by auto
  from perm have len: "length (l_to_p r) = ?n" by (simp add: perm_inv_def)
  have gc: "py_get (l_to_p r) (int c) = Inr (int u)" using py_get_nat[of c "l_to_p r"] c len u by simp
  have gt: "py_get (l_to_p r) (int t) = Inr (int v)" using py_get_nat[of t "l_to_p r"] t len v by simp
  from nadj are_adjacent_nat[OF g(2), of u v] un vn g have na: "?A ! u ! v \<noteq> 1" by simp
  from floyd_warshall_tables[OF g(2)] d g obtain nx where
    inv: "fw_inv ?A ?n ?n (d, nx)" by auto
  from fw_next_hop[OF inv un vn uv, of k] k obtain w where
    w: "w < ?n" "?A ! u ! w = 1" "d ! w ! v = enat (k - 1)" "1 \<le> k" by auto
  have k2: "2 \<le> k"
  proof (rule ccontr)
    assume "\<not> 2 \<le> k"
    with w have k1: "d ! w ! v = enat 0" by simp
    have "w = v"
    proof (rule ccontr)
      assume "w \<noteq> v"
      from fw_next_hop[OF inv w(1) vn this, of 0] k1 show False by simp
    qed
    with w na show False by simp
  qed
  from get_shortest_path_fin[OF g(2), of u v d k] un vn d k g obtain rest where
    sp: "get_shortest_path (topology r) (int u) (int v) = Some (Inr (int u # map int rest))"
    "length rest = k" "set rest \<subseteq> {0..<?n}" by auto
  let ?sp = "int u # map int rest"
  have lsp: "length ?sp = Suc k" using sp(2) by simp
  have k1: "1 \<le> k" using k2 by simp
  from choose_paths_length[OF lsp k1 strategy_cases[of r i "int c" "int t" pick]]
  obtain cp tp where
    ch: "choose_paths (swap_strategy_by_lookahead r i (int c) (int t) pick) (int c) (int t) ?sp
           = Some (cp, tp)"
    "length cp + length tp = k - 1" "set cp \<subseteq> set ?sp" "set tp \<subseteq> set ?sp" by blast
  have "set ?sp \<subseteq> int ` {0..<?n}" using sp(3) un by auto
  with ch(3,4) have "set cp \<subseteq> int ` {0..<?n}" "set tp \<subseteq> int ` {0..<?n}" by blast+
  then obtain cp' tp' where
    nat: "cp = map int cp'" "set cp' \<subseteq> {0..<?n}" "tp = map int tp'" "set tp' \<subseteq> {0..<?n}"
    using int_list_nat by meson
  from move_through_path_in_range[OF perm_inv_in_range[OF perm] c un nat(2)] nat(1)
  obtain cs r1 where
    m1: "move_through_path r (int c) (int u) cp = Inr (cs, length cp', r1)"
        "length cs = length cp'" "in_range ?n r1" by auto
  from move_through_path_in_range[OF m1(3) t vn nat(4)] nat(3)
  obtain ts r2 where
    m2: "move_through_path r1 (int t) (int v) tp = Inr (ts, length tp', r2)"
        "length ts = length tp'" by auto
  have "apply_cnot r (int c) (int t) i pick
          = Some (Inr (([cs, ts], length cs + length ts), r2))"
    using gc gt nadj sp(1) ch(1) m1 m2 by (simp add: apply_cnot_def)
  moreover have "int (length cs + length ts) = int k - 1"
    using m1(2) m2(2) ch(2) nat(1,3) k1 by (simp add: of_nat_diff)
  ultimately show ?thesis using k2 by blast
qed

theorem router_emits_k_minus_1_swaps_witness:
  "case Router (line_topology 4) (Mapper 4) [(0, 3, 0)] 10 of
     Inl e \<Rightarrow> False
   | Inr r \<Rightarrow>
       perm_inv 4 r \<and> l_to_p r ! 0 = 0 \<and> l_to_p r ! 3 = 3
     \<and> are_adjacent (topology r) 0 3 = Inr False
     \<and> (case dist (topology r) of None \<Rightarrow> False | Some d \<Rightarrow> d ! 0 ! 3 = enat 3)
     \<and> (\<exists>control_swaps target_swaps r'.
           apply_cnot r 0 3 0 0
             = Some (Inr (([control_swaps, target_swaps],
                           length control_swaps + length target_swaps), r'))
         \<and> int (length control_swaps + length target_swaps) = 3 - 1)"
proof -
  have H: "case Router (line_topology 4) (Mapper 4) [(0, 3, 0)] 10 of
     Inl e \<Rightarrow> False
   | Inr r \<Rightarrow>
       perm_inv 4 r \<and> l_to_p r ! 0 = 0 \<and> l_to_p r ! 3 = 3
     \<and> are_adjacent (topology r) 0 3 = Inr False
     \<and> (case dist (topology r) of None \<Rightarrow> False | Some d \<Rightarrow> d ! 0 ! 3 = enat 3)"
    by code_simp
  then obtain r where R: "Router (line_topology 4) (Mapper 4) [(0, 3, 0)] 10 = Inr r"
    by (cases "Router (line_topology 4) (Mapper 4) [(0, 3, 0)] 10") auto
  with H obtain d where h: "perm_inv 4 r" "l_to_p r ! 0 = int 0" "l_to_p r ! 3 = int 3"
    "are_adjacent (topology r) (int 0) (int 3) = Inr False"
    "dist (topology r) = Some d" "d ! 0 ! 3 = enat 3"
    by (auto split: option.splits)
  have n: "number_of_nodes (line_topology 4) = 4" by code_simp
  from router_emits_k_minus_1_swaps[OF R refl, of 0 3 0 3 d 3 0 0] h n
  have "\<exists>control_swaps target_swaps r'.
           apply_cnot r 0 3 0 0
             = Some (Inr (([control_swaps, target_swaps],
                           length control_swaps + length target_swaps), r'))
         \<and> int (length control_swaps + length target_swaps) = 3 - 1"
    by simp
  with R h show ?thesis by simp
qed

lemma choose_paths_empty:
  assumes "st \<in> {c, t, -1}"
  shows "choose_paths st c t [] = Some ([], [])"
  using assms by (auto simp: choose_paths_def split_paths_def py_slice_def Let_def)

section \<open>C3: routing between two components of the topology\<close>

text \<open>
  What \<^verbatim>\<open>__apply_cnot\<close> does when the nodes \<open>u\<close>, \<open>v\<close> holding the two qubits of a triple are
  joined by no walk in the adjacency matrix: \<^verbatim>\<open>get_shortest_path\<close> returns the empty list,
  every branch slices it into two empty paths, and the call returns normally with two empty
  SWAP lists, the count 0 and the router unchanged.
\<close>

lemma apply_cnot_without_path:
  fixes c t u v :: nat
  assumes R: "Router G m cnots la = Inr r0" and top: "topology r = topology r0"
    and perm: "perm_inv (number_of_nodes G) r"
    and c: "c < number_of_nodes G" and t: "t < number_of_nodes G"
    and u: "l_to_p r ! c = int u" and v: "l_to_p r ! t = int v"
    and nw: "\<not> (\<exists>xs. walk (adj_matrix (topology r)) u xs v \<and> set xs \<subseteq> {0..<number_of_nodes G})"
  shows "get_shortest_path (topology r) (int u) (int v) = Some (Inr [])
       \<and> apply_cnot r (int c) (int t) i pick = Some (Inr (([[], []], 0), r))"
proof -
  let ?n = "number_of_nodes G"
  from Router_topology[OF R] top obtain g where
    g: "topology r = floyd_warshall g" "wf_adj g" "num_nodes g = ?n" by auto
  let ?A = "adj_matrix g"
  from floyd_warshall_tables[OF g(2)] g obtain d nx where
    tb: "dist (topology r) = Some d" "fw_inv ?A ?n ?n (d, nx)" "adj_matrix (topology r) = ?A"
    by auto
  from perm_inv_l[OF perm c] u have un: "u < ?n" by auto
  from perm_inv_l[OF perm t] v have vn: "v < ?n" by auto
  from perm have len: "length (l_to_p r) = ?n" by (simp add: perm_inv_def)
  have gc: "py_get (l_to_p r) (int c) = Inr (int u)" using py_get_nat[of c "l_to_p r"] c len u by simp
  have gt: "py_get (l_to_p r) (int t) = Inr (int v)" using py_get_nat[of t "l_to_p r"] t len v by simp
  have inf: "d ! u ! v = \<infinity>" using fw_inf_iff[OF tb(2) un vn] nw tb(3) by simp
  have na: "?A ! u ! v \<noteq> 1"
  proof
    assume "?A ! u ! v = 1"
    then have "walk ?A u [v] v \<and> set [v] \<subseteq> {0..<?n}" using vn by simp
    with nw tb(3) show False by metis
  qed
  have adj: "are_adjacent (topology r) (int u) (int v) = Inr False"
    using are_adjacent_nat[OF g(2), of u v] un vn g na by simp
  have sp: "get_shortest_path (topology r) (int u) (int v) = Some (Inr [])"
    using get_shortest_path_inf[OF g(2), of u v d] un vn g tb(1) inf by simp
  have ch: "choose_paths (swap_strategy_by_lookahead r i (int c) (int t) pick) (int c) (int t) []
              = Some ([], [])"
    by (rule choose_paths_empty[OF strategy_cases])
  have "apply_cnot r (int c) (int t) i pick = Some (Inr (([[], []], 0), r))"
    using gc gt adj sp ch by (simp add: apply_cnot_def)
  with sp show ?thesis by simp
qed

text \<open>
  Claim C3 says that a route requested between two nodes of different components makes the
  compilation fail with the error no-path, and that routing does not silently continue. The
  code evaluated on the topology with the edges \<open>0 - 1\<close>, \<open>1 - 2\<close> and the isolated node 3,
  the gates \<open>(0, 3)\<close> and \<open>(0, 2)\<close> and the identity placement: for the first gate
  \<^verbatim>\<open>get_shortest_path\<close> returns the empty list and \<^verbatim>\<open>__apply_cnot\<close> records two empty
  SWAP lists; no error is raised; the loop goes on to the second gate and routes it with one
  SWAP; routing returns the count 1, and the qubits 0 and 3 of the first gate are still on
  nodes that are not adjacent, against the docstring of \<^verbatim>\<open>__apply_cnot\<close> ("ensuring that
  they are mapped to adjacent physical qubits").
\<close>

theorem no_path_routing_continues_silently:
  "case Router \<lparr>nodes = [0, 1, 2, 3], edges = [(0, 1), (1, 2)]\<rparr> (Mapper 4)
          [(0, 3, 0), (0, 2, 1)] 10 of
     Inl e \<Rightarrow> False
   | Inr r \<Rightarrow>
       get_shortest_path (topology r) 0 3 = Some (Inr [])
     \<and> apply_cnot r 0 3 0 0 = Some (Inr (([[], []], 0), r))
     \<and> (case route_circuit r (\<lambda>p. 0) of
          Some (Inr ((swaps_count, swaps), r')) \<Rightarrow>
            swaps_count = 1
          \<and> swaps = [[[], []], [[(0, 1)], []]]
          \<and> l_to_p r' = [1, 0, 2, 3]
          \<and> are_adjacent (topology r') (l_to_p r' ! 0) (l_to_p r' ! 3) = Inr False
        | _ \<Rightarrow> False)"
  by code_simp

lemma route_loop_fields:
  "route_loop r picks p xs = Some (Inr (res, r')) \<Longrightarrow>
     cnots_list r' = cnots_list r \<and> lookahead r' = lookahead r \<and> topology r' = topology r"
proof (induction xs arbitrary: r p res)
  case Nil
  then show ?case by simp
next
  case (Cons x xs)
  obtain c t i where x: "x = (c, t, i)" by (cases x) auto
  from Cons.prems x obtain sw n r1 res1 where
    a: "apply_cnot r c t i (picks p) = Some (Inr ((sw, n), r1))"
    and b: "route_loop r1 picks (Suc p) xs = Some (Inr (res1, r'))"
    by (auto simp: obind_eq_Some_Inr)
  from apply_cnot_fields[OF a] Cons.IH[OF b] show ?case by simp
qed

lemma route_circuit_fields:
  "route_circuit r picks = Some (Inr (res, r')) \<Longrightarrow>
     cnots_list r' = cnots_list r \<and> lookahead r' = lookahead r \<and> topology r' = topology r"
  unfolding route_circuit_def route_circuit_portion_def by (rule route_loop_fields)

section \<open>C6: the refinement wrapper keeps the placement with the smaller count\<close>

text \<open>
  Claim C6. The wrapper routes the prefix from the initial placement \<open>M\<^sub>0\<close>, which gives
  the count \<open>n\<^sub>1\<close> and the final placement \<open>M\<^sub>1\<close> of that router; it routes the same prefix
  again with a fresh router started from \<open>M\<^sub>1\<close>, which gives \<open>n\<^sub>2\<close>; it returns \<open>M\<^sub>1\<close> when
  \<open>n\<^sub>2 < n\<^sub>1\<close> and \<open>M\<^sub>0\<close> otherwise. In particular it returns \<open>M\<^sub>0\<close> when \<open>n\<^sub>1 = 5\<close> and
  \<open>n\<^sub>2 = 7\<close>.
\<close>

theorem update_mapping_returns_better_placement:
  assumes r: "Router G M0 cnots la = Inr r"
    and n1: "route_circuit r picks1 = Some (Inr ((n1, sw1), r1))"
    and M1: "M1 = from_static_mapping (number_of_nodes G) (l_to_p r1) (p_to_l r1)"
    and r': "Router G M1 cnots la = Inr r'"
    and n2: "route_circuit r' picks2 = Some (Inr ((n2, sw2), r2))"
  shows "update_mapping G M0 cnots la picks1 picks2 = Some (Inr (if n2 < n1 then M1 else M0))
       \<and> l_to_p r = l_to_p M0 \<and> p_to_l r = p_to_l M0
       \<and> l_to_p M1 = l_to_p r1 \<and> p_to_l M1 = p_to_l r1
       \<and> l_to_p r' = l_to_p M1 \<and> p_to_l r' = p_to_l M1 \<and> cnots_list r' = cnots_list r
       \<and> (n1 = 5 \<and> n2 = 7 \<longrightarrow> update_mapping G M0 cnots la picks1 picks2 = Some (Inr M0))"
proof -
  from Router_topology[OF r] have f0: "l_to_p r = l_to_p M0" "p_to_l r = p_to_l M0"
    "cnots_list r = cnots" "lookahead r = la" by auto
  from route_circuit_fields[OF n1] f0 have la: "lookahead r1 = la" by simp
  from Router_topology[OF r'] have f1: "l_to_p r' = l_to_p M1" "p_to_l r' = p_to_l M1"
    "cnots_list r' = cnots" by auto
  have m1: "l_to_p M1 = l_to_p r1" "p_to_l M1 = p_to_l r1"
    by (simp_all add: M1 from_static_mapping_def)
  have "update_mapping G M0 cnots la picks1 picks2 = Some (Inr (if n2 < n1 then M1 else M0))"
    using r n1 r' n2 la by (simp add: update_mapping_def M1[symmetric] Let_def)
  then show ?thesis using f0 f1 m1 by simp
qed

theorem update_mapping_returns_better_placement_witness:
  "(case Router (line_topology 6) (Mapper 6) [(0, 1, 0), (2, 5, 1), (1, 4, 2)] 10 of
      Inl e \<Rightarrow> False
    | Inr r \<Rightarrow>
       (case route_circuit r (\<lambda>p. 0) of
          Some (Inr ((n1, sw1), r1)) \<Rightarrow>
            n1 = 5 \<and>
            (case Router (line_topology 6) (from_static_mapping 6 (l_to_p r1) (p_to_l r1))
                    [(0, 1, 0), (2, 5, 1), (1, 4, 2)] 10 of
               Inl e \<Rightarrow> False
             | Inr r' \<Rightarrow>
                (case route_circuit r' (\<lambda>p. 0) of
                   Some (Inr ((n2, sw2), r2)) \<Rightarrow> n2 = 7
                 | _ \<Rightarrow> False))
        | _ \<Rightarrow> False))
   \<and> update_mapping (line_topology 6) (Mapper 6) [(0, 1, 0), (2, 5, 1), (1, 4, 2)] 10
         (\<lambda>p. 0) (\<lambda>p. 0) = Some (Inr (Mapper 6))"
proof -
  let ?G = "line_topology 6" and ?cn = "[(0, 1, 0), (2, 5, 1), (1, 4, 2)] :: cnot list"
  have H: "(case Router ?G (Mapper 6) ?cn 10 of
      Inl e \<Rightarrow> False
    | Inr r \<Rightarrow>
       (case route_circuit r (\<lambda>p. 0) of
          Some (Inr ((n1, sw1), r1)) \<Rightarrow>
            n1 = 5 \<and>
            (case Router ?G (from_static_mapping 6 (l_to_p r1) (p_to_l r1)) ?cn 10 of
               Inl e \<Rightarrow> False
             | Inr r' \<Rightarrow>
                (case route_circuit r' (\<lambda>p. 0) of
                   Some (Inr ((n2, sw2), r2)) \<Rightarrow> n2 = 7
                 | _ \<Rightarrow> False))
        | _ \<Rightarrow> False))"
    by code_simp
  then obtain r where r: "Router ?G (Mapper 6) ?cn 10 = Inr r"
    by (cases "Router ?G (Mapper 6) ?cn 10") auto
  have n: "number_of_nodes ?G = 6" by code_simp
  let ?second = "\<lambda>r'. case route_circuit r' (\<lambda>p. 0) of
                   Some (Inr ((n2, sw2), r2)) \<Rightarrow> n2 = 7
                 | _ \<Rightarrow> False"
  let ?inner = "\<lambda>r1. case Router ?G (from_static_mapping 6 (l_to_p r1) (p_to_l r1)) ?cn 10 of
               Inl e \<Rightarrow> False
             | Inr r' \<Rightarrow> ?second r'"
  from H r have H1: "case route_circuit r (\<lambda>p. 0) of
          Some (Inr ((n1, sw1), r1)) \<Rightarrow> n1 = 5 \<and> ?inner r1
        | _ \<Rightarrow> False" by simp
  then obtain x where x: "route_circuit r (\<lambda>p. 0) = Some x"
    by (cases "route_circuit r (\<lambda>p. 0)") auto
  with H1 obtain y where y: "x = Inr y" by (cases x) auto
  obtain k1 sw1 r1 where y': "y = ((k1, sw1), r1)" by (metis prod.exhaust)
  from H1 x y y' have k1: "k1 = 5" and H2: "?inner r1" by simp_all
  have n1: "route_circuit r (\<lambda>p. 0) = Some (Inr ((5, sw1), r1))" using x y y' k1 by simp
  from H2 obtain r' where
    r0: "Router ?G (from_static_mapping 6 (l_to_p r1) (p_to_l r1)) ?cn 10 = Inr r'"
    by (cases "Router ?G (from_static_mapping 6 (l_to_p r1) (p_to_l r1)) ?cn 10") auto
  with H2 have H3: "?second r'" by simp
  then obtain x2 where x2: "route_circuit r' (\<lambda>p. 0) = Some x2"
    by (cases "route_circuit r' (\<lambda>p. 0)") auto
  with H3 obtain y2 where y2: "x2 = Inr y2" by (cases x2) auto
  obtain k2 sw2 r2 where y2': "y2 = ((k2, sw2), r2)" by (metis prod.exhaust)
  from H3 x2 y2 y2' have k2: "k2 = 7" by simp
  have n2: "route_circuit r' (\<lambda>p. 0) = Some (Inr ((7, sw2), r2))" using x2 y2 y2' k2 by simp
  from r0 n have
    r': "Router ?G (from_static_mapping (number_of_nodes ?G) (l_to_p r1) (p_to_l r1)) ?cn 10 = Inr r'"
    by simp
  from update_mapping_returns_better_placement[OF r n1 refl r' n2]
  have "update_mapping ?G (Mapper 6) ?cn 10 (\<lambda>p. 0) (\<lambda>p. 0) = Some (Inr (Mapper 6))" by simp
  with H show ?thesis by simp
qed

section \<open>C1: the nodes a SWAP acts on\<close>

text \<open>
  Claim C1 says that every SWAP the compiler inserts acts on two nodes joined by an edge at
  the moment it is applied, in particular in the split-evenly branch. The code evaluated on
  the line \<open>0 - 1 - 2 - 3 - 4 - 5\<close> with the single gate \<open>(0, 5)\<close> and the identity placement:
  the split-evenly branch is taken, the path is \<open>[0, 1, 2, 3, 4, 5]\<close>, the control walks
  \<open>[1, 2]\<close> and the target walks \<open>[3, 4]\<close> in that order. After the control has moved, the
  target qubit 5 is still on node 5 and the first step of its walk exchanges it with the
  occupant of node 3; the driver emits that SWAP on the wires 5 and 3, which no edge joins.
  (The move-target branch reverses its slice; the split-evenly branch does not.)
\<close>

theorem split_evenly_swaps_nonadjacent_nodes:
  "case Router (line_topology 6) (Mapper 6) [(0, 5, 0)] 10 of
     Inl e \<Rightarrow> False
   | Inr r \<Rightarrow>
       get_shortest_path (topology r) 0 5 = Some (Inr [0, 1, 2, 3, 4, 5])
     \<and> swap_strategy_by_lookahead r 0 0 5 0 = -1
     \<and> choose_paths (-1) 0 5 [0, 1, 2, 3, 4, 5] = Some ([1, 2], [3, 4])
     \<and> (case move_through_path r 0 0 [1, 2] of
          Inl e \<Rightarrow> False
        | Inr (control_swaps, n, r1) \<Rightarrow>
            l_to_p r1 ! 5 = 5 \<and> p_to_l r1 ! 3 = 3
          \<and> (case swap_step r1 5 5 3 of
               Inl e \<Rightarrow> False
             | Inr (swap_qubit, r2) \<Rightarrow> swap_qubit = 3 \<and> l_to_p r2 ! 5 = 3 \<and> l_to_p r2 ! 3 = 5)
          \<and> are_adjacent (topology r1) 5 3 = Inr False)
     \<and> (case route_circuit r (\<lambda>p. 0) of
          Some (Inr ((swaps_count, swaps), r')) \<Rightarrow>
            swaps = [[[(0, 1), (0, 2)], [(5, 3), (5, 4)]]]
          \<and> (case emit_swaps [0, 1, 2, 3, 4, 5] [(0, 1), (0, 2)] of
               Inl e \<Rightarrow> False
             | Inr (control_ops, cw) \<Rightarrow>
                 control_ops = [(0, 1), (1, 2)]
               \<and> (case emit_swaps cw [(5, 3), (5, 4)] of
                    Inl e \<Rightarrow> False
                  | Inr (target_ops, cw') \<Rightarrow> target_ops = [(5, 3), (3, 4)]))
          \<and> are_adjacent (topology r') 5 3 = Inr False
        | _ \<Rightarrow> False)"
  by code_simp

section \<open>C9: the qubit with the best \<open>d\<close>-score\<close>

















section \<open>C7: the MAJORITY placement on the line of four nodes\<close>

text \<open>
  Claim C7 says that on the line \<open>0 - 1 - 2 - 3\<close> with the gates \<open>(0, 1)\<close> and \<open>(0, 2)\<close> the
  MAJORITY strategy completes with \<open>L2P[0] = 1\<close>. The code does not complete: the
  constructor evaluates \<^verbatim>\<open>self.connectivity.adj(u)\<close> for the first node and that call raises
  \<^verbatim>\<open>TypeError\<close>, on this and on every topology that has a node. Were the view subscripted
  (\<^verbatim>\<open>adj[u]\<close>), the two heaps would first yield qubit 0 and node 1 and the placement would
  be \<open>L2P = [1, 0, 2, 3]\<close>, with \<open>L2P[0] = 1\<close> as the claim says.
\<close>

theorem majority_mapper_raises_type_error:
  "MajorityMapper nx_adj_call (line_topology 4) [(0, 1, 0), (0, 2, 1)] 4 = Inl TypeError
   \<and> (case MajorityMapper nx_adj_subscript (line_topology 4) [(0, 1, 0), (0, 2, 1)] 4 of
        Inl e \<Rightarrow> False
      | Inr m \<Rightarrow> l_to_p m ! 0 = 1 \<and> l_to_p m = [1, 0, 2, 3] \<and> p_to_l m = [1, 0, 2, 3])"
  by code_simp

(*PROOFS-END*)

end
